theory Spec2Isabelle
  imports Complex_Main "HOL-Library.AList"
begin

section \<open>The centroid tracker of app.py (class PersonTracker)\<close>

text \<open>
  The tracker keeps a Python dict from track id to a track (itself a dict with the two
  keys \<open>centroid\<close> and \<open>disappeared\<close>) and the counter \<open>next_id\<close>.  A Python dict
  iterates in insertion order, keeps the position of a key that is assigned again and
  has no duplicate keys; it is modelled as an association list, kept in insertion
  order.  Every lookup, deletion and list index of the source that can raise is a
  branch of the model returning \<open>Inl\<close>.
\<close>

datatype error = KeyError | IndexError | UnboundLocalError | TypeError | ValueError | OverflowError

type_synonym centroid = "int \<times> int"

type_synonym detection = "real \<times> real \<times> real \<times> real"

record track =
  centroid :: "int \<times> int"
  disappeared :: int

record tracker =
  tracks :: "(int \<times> track) list"
  next_id :: int

text \<open>\<open>__init__\<close>: no track, the first id is 1.  The attribute \<open>max_disappeared\<close> is
  set to 10 there and assigned nowhere else, so it is a constant of the model.\<close>

definition init :: tracker where
  "init = \<lparr>tracks = [], next_id = 1\<rparr>"

definition max_disappeared :: int where
  "max_disappeared = 10"

subsection \<open>Python dict and list primitives\<close>

definition keys :: "('k \<times> 'v) list \<Rightarrow> 'k list" where
  "keys d = map fst d"

definition getitem :: "('k \<times> 'v) list \<Rightarrow> 'k \<Rightarrow> error + 'v" where
  "getitem d k = (case map_of d k of None \<Rightarrow> Inl KeyError | Some v \<Rightarrow> Inr v)"

definition setitem :: "('k \<times> 'v) list \<Rightarrow> 'k \<Rightarrow> 'v \<Rightarrow> ('k \<times> 'v) list" where
  "setitem d k v = AList.update k v d"

definition delitem :: "('k \<times> 'v) list \<Rightarrow> 'k \<Rightarrow> error + ('k \<times> 'v) list" where
  "delitem d k = (if k \<in> set (keys d) then Inr (AList.delete k d) else Inl KeyError)"

definition index :: "'a list \<Rightarrow> nat \<Rightarrow> error + 'a" where
  "index xs i = (if i < length xs then Inr (xs ! i) else Inl IndexError)"

text \<open>A \<open>for\<close> loop over a list whose body may raise: the first error ends the loop.\<close>

fun for_loop :: "('a \<Rightarrow> 's \<Rightarrow> error + 's) \<Rightarrow> 'a list \<Rightarrow> 's \<Rightarrow> error + 's" where
  "for_loop body [] s = Inr s"
| "for_loop body (x # xs) s =
     (case body x s of Inl e \<Rightarrow> Inl e | Inr s' \<Rightarrow> for_loop body xs s')"

text \<open>A list comprehension whose element expression may raise.\<close>

fun comprehension :: "('a \<Rightarrow> error + 'b) \<Rightarrow> 'a list \<Rightarrow> error + 'b list" where
  "comprehension f [] = Inr []"
| "comprehension f (x # xs) =
     (case f x of Inl e \<Rightarrow> Inl e
      | Inr y \<Rightarrow> (case comprehension f xs of Inl e \<Rightarrow> Inl e | Inr ys \<Rightarrow> Inr (y # ys)))"

subsection \<open>Centroids and distances\<close>

text \<open>\<open>int(q)\<close> on a number truncates towards zero.  A rectangle's coordinates are
  taken as exact real numbers; the rounding of floating-point addition is outside the model.
  The inputs on which \<open>int\<close> and \<open>np.sqrt\<close> raise (NaN, infinities, squared distances
  from \<open>2 ^ 64\<close>) are the subject of \<open>update_num\<close> below.\<close>

definition py_int :: "real \<Rightarrow> int" where
  "py_int q = (if 0 \<le> q then \<lfloor>q\<rfloor> else \<lceil>q\<rceil>)"

definition centroid_of :: "detection \<Rightarrow> centroid" where
  "centroid_of d = (case d of (x1, y1, x2, y2) \<Rightarrow>
     (py_int ((x1 + x2) / 2), py_int ((y1 + y2) / 2)))"

text \<open>
  The source compares \<open>dist = sqrt(dx**2 + dy**2)\<close> with \<open>min_dist\<close> and with 100.
  Both centroids are pairs of integers, so the model keeps the integer \<open>dx**2 + dy**2\<close>
  and compares squares; \<open>euclid\<close> is the distance itself, and the lemmas
  \<open>euclid_less_100\<close> and \<open>euclid_less_iff\<close> below show that the comparisons agree.
  \<open>min_dist\<close> is \<open>None\<close> for \<open>float('inf')\<close>.
\<close>

definition dist_sq :: "centroid \<Rightarrow> centroid \<Rightarrow> int" where
  "dist_sq a b = (fst a - fst b)\<^sup>2 + (snd a - snd b)\<^sup>2"

definition euclid :: "centroid \<Rightarrow> centroid \<Rightarrow> real" where
  "euclid a b = sqrt (real_of_int ((fst a - fst b)\<^sup>2 + (snd a - snd b)\<^sup>2))"

definition less_min :: "int \<Rightarrow> int option \<Rightarrow> bool" where
  "less_min d m = (case m of None \<Rightarrow> True | Some d' \<Rightarrow> d < d')"

subsection \<open>The loops of \<open>update\<close>\<close>

text \<open>Lines 35-38: every track ages by one frame and is deleted above the threshold.\<close>

definition mark_disappeared :: "int \<Rightarrow> (int \<times> track) list \<Rightarrow> error + (int \<times> track) list" where
  "mark_disappeared track_id trs =
     (case getitem trs track_id of Inl e \<Rightarrow> Inl e
      | Inr tr \<Rightarrow>
          let trs1 = setitem trs track_id (tr\<lparr>disappeared := disappeared tr + 1\<rparr>) in
          (case getitem trs1 track_id of Inl e \<Rightarrow> Inl e
           | Inr tr1 \<Rightarrow>
               if disappeared tr1 > max_disappeared then delitem trs1 track_id
               else Inr trs1))"

text \<open>Lines 50-54 and 99-103: a new track under the next id.\<close>

definition register :: "centroid \<Rightarrow> tracker \<Rightarrow> tracker" where
  "register c self =
     self\<lparr>tracks := setitem (tracks self) (next_id self) \<lparr>centroid = c, disappeared = 0\<rparr>,
          next_id := next_id self + 1\<rparr>"

text \<open>The local variables of the assignment pass, lines 61-85.  \<open>best_col\<close> is unbound
  (\<open>None\<close>) until its first assignment and is never reset.\<close>

record locals =
  used_rows :: "nat set"
  used_cols :: "nat set"
  assignments :: "(nat \<times> int) list"
  min_dist :: "int option"
  best_track :: "int option"
  best_col :: "nat option"

definition init_locals :: locals where
  "init_locals = \<lparr>used_rows = {}, used_cols = {}, assignments = [],
                  min_dist = None, best_track = None, best_col = None\<rparr>"

text \<open>Lines 69-80, the body of the inner loop over \<open>enumerate(track_ids)\<close>, with exact
  arithmetic; \<open>scan_body_num\<close> below adds the range fault of \<open>np.sqrt\<close>, and wherever that
  one returns, this one returns the same (\<open>scan_body_num_returns\<close>).\<close>

definition scan_body :: "centroid \<Rightarrow> centroid list \<Rightarrow> nat \<times> int \<Rightarrow> locals \<Rightarrow> error + locals" where
  "scan_body input_centroid track_centroids jt loc =
     (case jt of (j, track_id) \<Rightarrow>
        if j \<in> used_cols loc then Inr loc
        else (case index track_centroids j of Inl e \<Rightarrow> Inl e
              | Inr track_centroid \<Rightarrow>
                  let dist = dist_sq input_centroid track_centroid in
                  if less_min dist (min_dist loc) \<and> dist < 100\<^sup>2
                  then Inr (loc\<lparr>min_dist := Some dist, best_track := Some track_id,
                                best_col := Some j\<rparr>)
                  else Inr loc))"

text \<open>Lines 65-85, the body of the outer loop over \<open>enumerate(input_centroids)\<close>.\<close>

definition assign_body :: "int list \<Rightarrow> centroid list \<Rightarrow> nat \<times> centroid \<Rightarrow> locals \<Rightarrow> error + locals" where
  "assign_body track_ids track_centroids ic loc =
     (case ic of (i, input_centroid) \<Rightarrow>
        (case for_loop (scan_body input_centroid track_centroids) (enumerate 0 track_ids)
                (loc\<lparr>min_dist := None, best_track := None\<rparr>) of
           Inl e \<Rightarrow> Inl e
         | Inr loc1 \<Rightarrow>
             (case best_track loc1 of
                None \<Rightarrow> Inr loc1
              | Some bt \<Rightarrow>
                  (case best_col loc1 of
                     None \<Rightarrow> Inl UnboundLocalError
                   | Some bc \<Rightarrow>
                       Inr (loc1\<lparr>assignments := setitem (assignments loc1) i bt,
                                 used_rows := insert i (used_rows loc1),
                                 used_cols := insert bc (used_cols loc1)\<rparr>)))))"

text \<open>Lines 88-94: a matched track takes the detection's centroid and counter 0, any
  other track ages by one frame.\<close>

definition refresh_body ::
  "(nat \<times> int) list \<Rightarrow> centroid list \<Rightarrow> int \<Rightarrow> (int \<times> track) list \<Rightarrow> error + (int \<times> track) list" where
  "refresh_body asg input_centroids track_id trs =
     (if track_id \<in> set (map snd asg) then
        (case index (map fst (filter (\<lambda>kv. snd kv = track_id) asg)) 0 of Inl e \<Rightarrow> Inl e
         | Inr input_idx \<Rightarrow>
        (case index input_centroids input_idx of Inl e \<Rightarrow> Inl e
         | Inr c \<Rightarrow>
        (case getitem trs track_id of Inl e \<Rightarrow> Inl e
         | Inr tr \<Rightarrow>
            let trs1 = setitem trs track_id (tr\<lparr>centroid := c\<rparr>) in
        (case getitem trs1 track_id of Inl e \<Rightarrow> Inl e
         | Inr tr1 \<Rightarrow> Inr (setitem trs1 track_id (tr1\<lparr>disappeared := 0\<rparr>))))))
      else
        (case getitem trs track_id of Inl e \<Rightarrow> Inl e
         | Inr tr \<Rightarrow> Inr (setitem trs track_id (tr\<lparr>disappeared := disappeared tr + 1\<rparr>))))"

text \<open>Lines 97-103: a new track for every detection that claimed none.\<close>

definition add_body :: "nat set \<Rightarrow> nat \<times> centroid \<Rightarrow> tracker \<Rightarrow> tracker" where
  "add_body rows ic self =
     (case ic of (i, c) \<Rightarrow> if i \<notin> rows then register c self else self)"

text \<open>Lines 106-108: tracks above the threshold are deleted.\<close>

definition remove_body :: "int \<Rightarrow> (int \<times> track) list \<Rightarrow> error + (int \<times> track) list" where
  "remove_body track_id trs =
     (case getitem trs track_id of Inl e \<Rightarrow> Inl e
      | Inr tr \<Rightarrow>
          if disappeared tr > max_disappeared then delitem trs track_id else Inr trs)"

subsection \<open>\<open>PersonTracker.update\<close>\<close>

text \<open>The result is the returned list of ids together with the tracker after the call.\<close>

definition update :: "tracker \<Rightarrow> detection list \<Rightarrow> error + (int list \<times> tracker)" where
  "update self detections =
     (if length detections = 0 then
        (case for_loop mark_disappeared (keys (tracks self)) (tracks self) of
           Inl e \<Rightarrow> Inl e
         | Inr trs \<Rightarrow> Inr ([], self\<lparr>tracks := trs\<rparr>))
      else
        let input_centroids = map centroid_of detections in
        if length (tracks self) = 0 then
          let self1 = fold register input_centroids self
          in Inr (keys (tracks self1), self1)
        else
          let track_ids = keys (tracks self) in
          (case comprehension (\<lambda>tid. map_sum id centroid (getitem (tracks self) tid)) track_ids of
             Inl e \<Rightarrow> Inl e
           | Inr track_centroids \<Rightarrow>
          (case for_loop (assign_body track_ids track_centroids)
                  (enumerate 0 input_centroids) init_locals of
             Inl e \<Rightarrow> Inl e
           | Inr loc \<Rightarrow>
          (case for_loop (refresh_body (assignments loc) input_centroids) track_ids (tracks self) of
             Inl e \<Rightarrow> Inl e
           | Inr trs1 \<Rightarrow>
              let self2 = fold (add_body (used_rows loc)) (enumerate 0 input_centroids)
                            (self\<lparr>tracks := trs1\<rparr>) in
          (case for_loop remove_body (keys (tracks self2)) (tracks self2) of
             Inl e \<Rightarrow> Inl e
           | Inr trs3 \<Rightarrow> Inr (keys trs3, self2\<lparr>tracks := trs3\<rparr>))))))"

subsection \<open>The faults of the numeric primitives\<close>

text \<open>
  \<open>update\<close> above computes with exact numbers.  Two primitives of the source can raise
  on numbers:
  \<^item> \<open>int(q)\<close> (lines 44-45) raises ValueError on a NaN and OverflowError on an infinity.
    A coordinate is a float: a finite number, an infinity or a NaN.  The sum of two
    finite floats is an infinity once it passes the largest float; the threshold of the
    model is that of float32, the narrowest type the code receives (\<open>process_video\<close>
    passes numpy float32), so wider floats overflow later than the model does.  The
    rounding of finite results is not modelled.
  \<^item> \<open>np.sqrt(n)\<close> (line 74) is applied to a Python int; numpy converts an int below
    \<open>2 ^ 64\<close> to a machine integer and raises TypeError on a larger one.
  \<open>update_num\<close> is \<open>update\<close> with these branches: the same loops, with \<open>centroid_num\<close> for
  \<open>centroid_of\<close> and \<open>scan_body_num\<close> for \<open>scan_body\<close>.
\<close>

datatype number = Finite real | PosInf | NegInf | NaN

type_synonym raw_detection = "number \<times> number \<times> number \<times> number"

definition float_limit :: real where
  "float_limit = 2 ^ 128 - 2 ^ 103"

definition overflow :: "real \<Rightarrow> number" where
  "overflow r =
     (if float_limit \<le> r then PosInf else if r \<le> - float_limit then NegInf else Finite r)"

fun float_add :: "number \<Rightarrow> number \<Rightarrow> number" where
  "float_add NaN y = NaN"
| "float_add x NaN = NaN"
| "float_add PosInf NegInf = NaN"
| "float_add NegInf PosInf = NaN"
| "float_add PosInf y = PosInf"
| "float_add x PosInf = PosInf"
| "float_add NegInf y = NegInf"
| "float_add x NegInf = NegInf"
| "float_add (Finite a) (Finite b) = overflow (a + b)"

fun float_half :: "number \<Rightarrow> number" where
  "float_half (Finite a) = Finite (a / 2)"
| "float_half x = x"

fun int_of :: "number \<Rightarrow> error + int" where
  "int_of (Finite q) = Inr (py_int q)"
| "int_of NaN = Inl ValueError"
| "int_of x = Inl OverflowError"

definition centroid_num :: "raw_detection \<Rightarrow> error + centroid" where
  "centroid_num d = (case d of (x1, y1, x2, y2) \<Rightarrow>
     (case int_of (float_half (float_add x1 x2)) of Inl e \<Rightarrow> Inl e
      | Inr cx \<Rightarrow>
     (case int_of (float_half (float_add y1 y2)) of Inl e \<Rightarrow> Inl e
      | Inr cy \<Rightarrow> Inr (cx, cy))))"

text \<open>\<open>np.sqrt\<close> on the Python int \<open>n\<close>; the value kept is the square, as in \<open>scan_body\<close>.\<close>

definition np_sqrt :: "int \<Rightarrow> error + int" where
  "np_sqrt n = (if n < 2 ^ 64 then Inr n else Inl TypeError)"

definition scan_body_num :: "centroid \<Rightarrow> centroid list \<Rightarrow> nat \<times> int \<Rightarrow> locals \<Rightarrow> error + locals" where
  "scan_body_num input_centroid track_centroids jt loc =
     (case jt of (j, track_id) \<Rightarrow>
        if j \<in> used_cols loc then Inr loc
        else (case index track_centroids j of Inl e \<Rightarrow> Inl e
              | Inr track_centroid \<Rightarrow>
             (case np_sqrt (dist_sq input_centroid track_centroid) of Inl e \<Rightarrow> Inl e
              | Inr dist2 \<Rightarrow>
                  if less_min dist2 (min_dist loc) \<and> dist2 < 100\<^sup>2
                  then Inr (loc\<lparr>min_dist := Some dist2, best_track := Some track_id,
                                best_col := Some j\<rparr>)
                  else Inr loc)))"

definition assign_body_num :: "int list \<Rightarrow> centroid list \<Rightarrow> nat \<times> centroid \<Rightarrow> locals \<Rightarrow> error + locals" where
  "assign_body_num track_ids track_centroids ic loc =
     (case ic of (i, input_centroid) \<Rightarrow>
        (case for_loop (scan_body_num input_centroid track_centroids) (enumerate 0 track_ids)
                (loc\<lparr>min_dist := None, best_track := None\<rparr>) of
           Inl e \<Rightarrow> Inl e
         | Inr loc1 \<Rightarrow>
             (case best_track loc1 of
                None \<Rightarrow> Inr loc1
              | Some bt \<Rightarrow>
                  (case best_col loc1 of
                     None \<Rightarrow> Inl UnboundLocalError
                   | Some bc \<Rightarrow>
                       Inr (loc1\<lparr>assignments := setitem (assignments loc1) i bt,
                                 used_rows := insert i (used_rows loc1),
                                 used_cols := insert bc (used_cols loc1)\<rparr>)))))"

definition update_num :: "tracker \<Rightarrow> raw_detection list \<Rightarrow> error + (int list \<times> tracker)" where
  "update_num self detections =
     (if length detections = 0 then
        (case for_loop mark_disappeared (keys (tracks self)) (tracks self) of
           Inl e \<Rightarrow> Inl e
         | Inr trs \<Rightarrow> Inr ([], self\<lparr>tracks := trs\<rparr>))
      else
        (case comprehension centroid_num detections of
           Inl e \<Rightarrow> Inl e
         | Inr input_centroids \<Rightarrow>
        if length (tracks self) = 0 then
          let self1 = fold register input_centroids self
          in Inr (keys (tracks self1), self1)
        else
          let track_ids = keys (tracks self) in
          (case comprehension (\<lambda>tid. map_sum id centroid (getitem (tracks self) tid)) track_ids of
             Inl e \<Rightarrow> Inl e
           | Inr track_centroids \<Rightarrow>
          (case for_loop (assign_body_num track_ids track_centroids)
                  (enumerate 0 input_centroids) init_locals of
             Inl e \<Rightarrow> Inl e
           | Inr loc \<Rightarrow>
          (case for_loop (refresh_body (assignments loc) input_centroids) track_ids (tracks self) of
             Inl e \<Rightarrow> Inl e
           | Inr trs1 \<Rightarrow>
              let self2 = fold (add_body (used_rows loc)) (enumerate 0 input_centroids)
                            (self\<lparr>tracks := trs1\<rparr>) in
          (case for_loop remove_body (keys (tracks self2)) (tracks self2) of
             Inl e \<Rightarrow> Inl e
           | Inr trs3 \<Rightarrow> Inr (keys trs3, self2\<lparr>tracks := trs3\<rparr>)))))))"

text \<open>
  The inputs the numeric statements are about.  A well-formed rectangle has four finite
  coordinates of magnitude at most \<open>2 ^ 30\<close> (no frame is wider or higher); a bounded
  tracker has its centroids in the same range.  \<open>rect_value\<close> reads a rectangle of finite
  coordinates as the reals they stand for.
\<close>

definition coord_bound :: int where
  "coord_bound = 2 ^ 30"

definition in_range :: "number \<Rightarrow> bool" where
  "in_range x = (case x of Finite r \<Rightarrow> \<bar>r\<bar> \<le> real_of_int coord_bound | _ \<Rightarrow> False)"

definition well_formed_rect :: "raw_detection \<Rightarrow> bool" where
  "well_formed_rect d = (case d of (x1, y1, x2, y2) \<Rightarrow>
     in_range x1 \<and> in_range y1 \<and> in_range x2 \<and> in_range y2)"

definition bounded_centroid :: "centroid \<Rightarrow> bool" where
  "bounded_centroid c = (\<bar>fst c\<bar> \<le> coord_bound \<and> \<bar>snd c\<bar> \<le> coord_bound)"

definition bounded_tracker :: "tracker \<Rightarrow> bool" where
  "bounded_tracker self = list_all (\<lambda>kt. bounded_centroid (centroid (snd kt))) (tracks self)"

definition value_of :: "number \<Rightarrow> real" where
  "value_of x = (case x of Finite r \<Rightarrow> r | _ \<Rightarrow> 0)"

definition rect_value :: "raw_detection \<Rightarrow> detection" where
  "rect_value d = (case d of (x1, y1, x2, y2) \<Rightarrow>
     (value_of x1, value_of y1, value_of x2, value_of y2))"

text \<open>The frame loop of \<open>process_video\<close> over \<open>update_num\<close>.\<close>

definition frame_step_num :: "raw_detection list \<Rightarrow> tracker \<Rightarrow> error + tracker" where
  "frame_step_num detections self =
     (case update_num self detections of Inl e \<Rightarrow> Inl e | Inr r \<Rightarrow> Inr (snd r))"

definition run_num :: "tracker \<Rightarrow> raw_detection list list \<Rightarrow> error + tracker" where
  "run_num self frames = for_loop frame_step_num frames self"

subsection \<open>The frame loop\<close>

text \<open>\<open>process_video\<close> calls \<open>update\<close> once per frame, in frame order, on one tracker;
  \<open>run\<close> is that sequence of calls, given the detections of each frame.\<close>

definition frame_step :: "detection list \<Rightarrow> tracker \<Rightarrow> error + tracker" where
  "frame_step detections self =
     (case update self detections of Inl e \<Rightarrow> Inl e | Inr r \<Rightarrow> Inr (snd r))"

definition run :: "tracker \<Rightarrow> detection list list \<Rightarrow> error + tracker" where
  "run self frames = for_loop frame_step frames self"

subsection \<open>Vocabulary of the statements\<close>

text \<open>A track one frame older, a track at or below the disappearance threshold, and
  the track a detection starts.\<close>

definition aged :: "track \<Rightarrow> track" where
  "aged tr = tr\<lparr>disappeared := disappeared tr + 1\<rparr>"

definition alive :: "int \<times> track \<Rightarrow> bool" where
  "alive kt = (\<not> disappeared (snd kt) > max_disappeared)"

definition new_track :: "centroid \<Rightarrow> track" where
  "new_track c = \<lparr>centroid = c, disappeared = 0\<rparr>"

subsection \<open>The assignment pass as the specification words it\<close>

text \<open>
  \<open>greedy_match\<close> follows the specification, not the source: the detections are taken
  in input order; each one looks at the tracks not yet claimed, picks the one at least
  Euclidean distance (\<open>arg_min_list\<close> returns the first of several at the same
  distance), and claims it when that distance is strictly below 100.  The result lists
  the pairs (detection index, track id) in the order they are made.
\<close>

definition nearest :: "centroid \<Rightarrow> (int \<times> centroid) list \<Rightarrow> int \<times> centroid" where
  "nearest c trks = arg_min_list (\<lambda>kc. euclid c (snd kc)) trks"

fun greedy_match :: "(int \<times> centroid) list \<Rightarrow> int set \<Rightarrow> (nat \<times> centroid) list \<Rightarrow> (nat \<times> int) list" where
  "greedy_match trks claimed [] = []"
| "greedy_match trks claimed (ic # dets) =
     (let unclaimed = filter (\<lambda>kc. fst kc \<notin> claimed) trks in
      if unclaimed \<noteq> [] \<and> euclid (snd ic) (snd (nearest (snd ic) unclaimed)) < 100
      then (fst ic, fst (nearest (snd ic) unclaimed)) #
             greedy_match trks (insert (fst (nearest (snd ic) unclaimed)) claimed) dets
      else greedy_match trks claimed dets)"

text \<open>The assignments of a call, the track an existing track becomes (refreshed by the
  first detection assigned to it, aged otherwise), and the centroids of the detections
  that claimed no track.\<close>

definition matching :: "tracker \<Rightarrow> detection list \<Rightarrow> (nat \<times> int) list" where
  "matching self detections =
     greedy_match (map (\<lambda>kt. (fst kt, centroid (snd kt))) (tracks self)) {}
       (enumerate 0 (map centroid_of detections))"

definition refreshed :: "(nat \<times> int) list \<Rightarrow> centroid list \<Rightarrow> int \<times> track \<Rightarrow> int \<times> track" where
  "refreshed asg cs kt =
     (case filter (\<lambda>iv. snd iv = fst kt) asg of
        [] \<Rightarrow> (fst kt, aged (snd kt))
      | iv # _ \<Rightarrow> (fst kt, new_track (cs ! fst iv)))"

definition unmatched :: "(nat \<times> int) list \<Rightarrow> centroid list \<Rightarrow> centroid list" where
  "unmatched asg cs = map snd (filter (\<lambda>ic. fst ic \<notin> set (keys asg)) (enumerate 0 cs))"

text \<open>The invariant of a tracker that \<open>update\<close> keeps: the dict has no duplicate key (as
  any Python dict) and every id in it is below \<open>next_id\<close>.  Then the tracks after a call
  with detections are the old tracks that survive, followed by the tracks the call
  creates.\<close>

definition well_formed :: "tracker \<Rightarrow> bool" where
  "well_formed self =
     (distinct (keys (tracks self)) \<and> (\<forall>k \<in> set (keys (tracks self)). k < next_id self))"

definition survivors :: "tracker \<Rightarrow> detection list \<Rightarrow> (int \<times> track) list" where
  "survivors self detections =
     filter alive (map (refreshed (matching self detections) (map centroid_of detections))
                     (tracks self))"

definition created :: "tracker \<Rightarrow> detection list \<Rightarrow> (int \<times> track) list" where
  "created self detections =
     (let new = unmatched (matching self detections) (map centroid_of detections)
      in zip [next_id self .. next_id self + int (length new) - 1] (map new_track new))"

text \<open>The invariant of the trackers that \<open>run\<close> reaches from \<open>init\<close>: the ids in the
  dict are in strictly increasing order (the dict iterates in insertion order), they
  start at 1 and stay below \<open>next_id\<close>.\<close>

definition ids_ordered :: "tracker \<Rightarrow> bool" where
  "ids_ordered self =
     (sorted_wrt (<) (keys (tracks self)) \<and> 1 \<le> next_id self \<and>
      (\<forall>k \<in> set (keys (tracks self)). 1 \<le> k \<and> k < next_id self))"

subsection \<open>Auxiliary notions of the proofs\<close>

text \<open>The columns (positions in \<open>track_ids\<close>) not yet in \<open>used_cols\<close>, the squared
  distance of a column, the locals after a column is chosen, the locals after the scan
  for one detection, the track of a column, and the invariant that links \<open>used_cols\<close>
  with the set of claimed track ids.\<close>

definition unclaimed_cols :: "locals \<Rightarrow> (nat \<times> int) list \<Rightarrow> (nat \<times> int) list" where
  "unclaimed_cols loc jts = filter (\<lambda>jt. fst jt \<notin> used_cols loc) jts"

definition col_dist :: "centroid \<Rightarrow> centroid list \<Rightarrow> nat \<times> int \<Rightarrow> int" where
  "col_dist ic tcs jt = dist_sq ic (tcs ! fst jt)"

definition chosen :: "locals \<Rightarrow> centroid \<Rightarrow> centroid list \<Rightarrow> nat \<times> int \<Rightarrow> locals" where
  "chosen loc ic tcs jt =
     loc\<lparr>min_dist := Some (col_dist ic tcs jt), best_track := Some (snd jt), best_col := Some (fst jt)\<rparr>"

definition scan_result :: "locals \<Rightarrow> centroid \<Rightarrow> centroid list \<Rightarrow> (nat \<times> int) list \<Rightarrow> locals" where
  "scan_result loc ic tcs jts =
     (if unclaimed_cols loc jts \<noteq> [] \<and>
         col_dist ic tcs (arg_min_list (col_dist ic tcs) (unclaimed_cols loc jts)) < 100\<^sup>2
      then chosen loc ic tcs (arg_min_list (col_dist ic tcs) (unclaimed_cols loc jts))
      else loc)"

definition col_track :: "centroid list \<Rightarrow> nat \<times> int \<Rightarrow> int \<times> centroid" where
  "col_track tcs jt = (snd jt, tcs ! fst jt)"

definition cols_claimed :: "int list \<Rightarrow> locals \<Rightarrow> int set \<Rightarrow> bool" where
  "cols_claimed tids loc claimed =
     (\<forall>jt \<in> set (enumerate 0 tids). fst jt \<in> used_cols loc \<longleftrightarrow> snd jt \<in> claimed)"

section \<open>Dictionary lemmas\<close>

lemma keys_simps [simp]:
  "keys [] = []" "keys (kv # d) = fst kv # keys d" "keys (d @ d') = keys d @ keys d'"
  by (simp_all add: keys_def)

lemma getitem_split:
  "k \<notin> set (keys pre) \<Longrightarrow> getitem (pre @ (k, v) # suf) k = Inr v"
  by (induction pre) (auto simp: getitem_def keys_def)

lemma setitem_split:
  "k \<notin> set (keys pre) \<Longrightarrow> setitem (pre @ (k, v) # suf) k v' = pre @ (k, v') # suf"
  by (induction pre) (auto simp: setitem_def keys_def)

lemma setitem_append:
  "k \<notin> set (keys d) \<Longrightarrow> setitem d k v = d @ [(k, v)]"
  by (induction d) (auto simp: setitem_def keys_def)

lemma delitem_split:
  "k \<notin> set (keys pre) \<Longrightarrow> k \<notin> set (keys suf) \<Longrightarrow>
   delitem (pre @ (k, v) # suf) k = Inr (pre @ suf)"
  by (induction pre) (auto simp: delitem_def keys_def)

section \<open>A frame without detections\<close>

lemma mark_disappeared_step:
  assumes "k \<notin> set (keys pre)" "k \<notin> set (keys suf)"
  shows "mark_disappeared k (pre @ (k, tr) # suf) =
           Inr (pre @ filter alive [(k, aged tr)] @ suf)"
  using assms
  by (simp add: mark_disappeared_def getitem_split setitem_split delitem_split alive_def aged_def)

text \<open>The loop runs over a snapshot of the keys while it edits the dict: when it
  reaches the keys of \<open>suf\<close>, the tracks before them (\<open>pre\<close>) are done.\<close>

lemma mark_disappeared_loop:
  "distinct (keys (pre @ suf)) \<Longrightarrow>
   for_loop mark_disappeared (keys suf) (pre @ suf) =
     Inr (pre @ filter alive (map (apsnd aged) suf))"
proof (induction suf arbitrary: pre)
  case Nil
  then show ?case by simp
next
  case (Cons kt suf)
  obtain k tr where kt: "kt = (k, tr)" by (cases kt)
  from Cons.prems have k: "k \<notin> set (keys pre)" "k \<notin> set (keys suf)"
    and d: "distinct (keys pre)" "distinct (keys suf)" "set (keys pre) \<inter> set (keys suf) = {}"
    by (auto simp: kt)
  let ?mid = "filter alive [(k, aged tr)]"
  have "distinct (keys ((pre @ ?mid) @ suf))"
    using k d by auto
  from Cons.IH [OF this] show ?case
    using k by (simp add: kt mark_disappeared_step)
qed

lemma update_no_detections:
  assumes "distinct (keys (tracks self))"
  shows "update self [] =
           Inr ([], self\<lparr>tracks := filter alive (map (apsnd aged) (tracks self))\<rparr>)"
  using mark_disappeared_loop [of "[]" "tracks self"] assms
  by (simp add: update_def)

section \<open>Removal of disappeared tracks\<close>

lemma remove_body_step:
  assumes "k \<notin> set (keys pre)" "k \<notin> set (keys suf)"
  shows "remove_body k (pre @ (k, tr) # suf) = Inr (pre @ filter alive [(k, tr)] @ suf)"
  using assms
  by (simp add: remove_body_def getitem_split delitem_split alive_def)

lemma remove_loop:
  "distinct (keys (pre @ suf)) \<Longrightarrow>
   for_loop remove_body (keys suf) (pre @ suf) = Inr (pre @ filter alive suf)"
proof (induction suf arbitrary: pre)
  case Nil
  then show ?case by simp
next
  case (Cons kt suf)
  obtain k tr where kt: "kt = (k, tr)" by (cases kt)
  from Cons.prems have k: "k \<notin> set (keys pre)" "k \<notin> set (keys suf)"
    and d: "distinct (keys pre)" "distinct (keys suf)" "set (keys pre) \<inter> set (keys suf) = {}"
    by (auto simp: kt)
  let ?mid = "filter alive [(k, tr)]"
  have "distinct (keys ((pre @ ?mid) @ suf))"
    using k d by auto
  from Cons.IH [OF this] show ?case
    using k by (simp add: kt remove_body_step)
qed

section \<open>New tracks\<close>

lemma fold_register:
  "\<forall>k \<in> set (keys (tracks self)). k < next_id self \<Longrightarrow>
   fold register cs self =
     self\<lparr>tracks := tracks self @
               zip [next_id self .. next_id self + int (length cs) - 1] (map new_track cs),
          next_id := next_id self + int (length cs)\<rparr>"
proof (induction cs arbitrary: self)
  case Nil
  then show ?case by simp
next
  case (Cons c cs)
  let ?n = "next_id self"
  have fresh: "?n \<notin> set (keys (tracks self))"
    using Cons.prems by auto
  have reg: "register c self =
               self\<lparr>tracks := tracks self @ [(?n, new_track c)], next_id := ?n + 1\<rparr>"
    by (simp add: register_def setitem_append [OF fresh] new_track_def)
  have inv: "\<forall>k \<in> set (keys (tracks (register c self))). k < next_id (register c self)"
    using Cons.prems by (auto simp: reg)
  have up: "[?n .. ?n + int (length (c # cs)) - 1] = ?n # [?n + 1 .. ?n + 1 + int (length cs) - 1]"
    by (subst upto_rec1) (simp_all add: add.commute add.left_commute)
  show ?case
    unfolding up by (simp add: Cons.IH [OF inv]) (simp add: reg)
qed

section \<open>The assignment pass\<close>

lemma track_centroids_comprehension:
  "distinct (keys (pre @ suf)) \<Longrightarrow>
   comprehension (\<lambda>tid. map_sum id centroid (getitem (pre @ suf) tid)) (keys suf) =
     Inr (map (\<lambda>kt. centroid (snd kt)) suf)"
proof (induction suf arbitrary: pre)
  case Nil
  then show ?case by simp
next
  case (Cons kt suf)
  obtain k tr where kt: "kt = (k, tr)" by (cases kt)
  from Cons.prems have k: "k \<notin> set (keys pre)" by (auto simp: kt)
  from Cons.prems have "distinct (keys ((pre @ [kt]) @ suf))" by simp
  from Cons.IH [OF this] show ?case
    using k by (simp add: kt getitem_split)
qed

lemma arg_min_list_step:
  fixes f :: "'a \<Rightarrow> 'b::linorder"
  shows "arg_min_list f (b # x # xs) = arg_min_list f ((if f x < f b then x else b) # xs)"
  by (cases xs) (auto simp: Let_def)

lemma arg_min_list_le_head:
  fixes f :: "'a \<Rightarrow> 'b::linorder"
  shows "f (arg_min_list f (x # xs)) \<le> f x"
  by (simp add: f_arg_min_list_f)

lemma chosen_simps [simp]:
  "used_cols (chosen loc ic tcs jt) = used_cols loc"
  "min_dist (chosen loc ic tcs jt) = Some (col_dist ic tcs jt)"
  "chosen (chosen loc ic tcs jt) ic tcs jt' = chosen loc ic tcs jt'"
  by (simp_all add: chosen_def)

lemma unclaimed_cols_chosen [simp]:
  "unclaimed_cols (chosen loc ic tcs jt) jts = unclaimed_cols loc jts"
  by (simp add: unclaimed_cols_def)

lemma scan_body_chosen:
  assumes "fst x < length tcs" "col_dist ic tcs b < 100\<^sup>2"
  shows "scan_body ic tcs x (chosen loc ic tcs b) =
           Inr (if fst x \<in> used_cols loc then chosen loc ic tcs b
                else chosen loc ic tcs (if col_dist ic tcs x < col_dist ic tcs b then x else b))"
  using assms
  by (cases x) (auto simp: scan_body_def index_def less_min_def Let_def col_dist_def chosen_def)

lemma scan_from_chosen:
  assumes "\<forall>jt \<in> set jts. fst jt < length tcs" "col_dist ic tcs b < 100\<^sup>2"
  shows "for_loop (scan_body ic tcs) jts (chosen loc ic tcs b) =
           Inr (chosen loc ic tcs (arg_min_list (col_dist ic tcs) (b # unclaimed_cols loc jts)))"
  using assms
proof (induction jts arbitrary: b)
  case Nil
  then show ?case by (simp add: unclaimed_cols_def)
next
  case (Cons x jts)
  show ?case
  proof (cases "fst x \<in> used_cols loc")
    case True
    then show ?thesis
      using Cons by (simp add: scan_body_chosen unclaimed_cols_def)
  next
    case False
    let ?b = "if col_dist ic tcs x < col_dist ic tcs b then x else b"
    have "col_dist ic tcs ?b < 100\<^sup>2" using Cons.prems by auto
    with Cons.IH [of ?b] Cons.prems
    have "for_loop (scan_body ic tcs) jts (chosen loc ic tcs ?b) =
            Inr (chosen loc ic tcs (arg_min_list (col_dist ic tcs) (?b # unclaimed_cols loc jts)))"
      by simp
    moreover have "unclaimed_cols loc (x # jts) = x # unclaimed_cols loc jts"
      using False by (simp add: unclaimed_cols_def)
    ultimately show ?thesis
      using Cons.prems False
      by (simp add: scan_body_chosen arg_min_list_step [of _ b x] del: arg_min_list.simps)
  qed
qed

lemma scan_body_none:
  assumes "fst x < length tcs" "min_dist loc = None"
  shows "scan_body ic tcs x loc =
           Inr (if fst x \<notin> used_cols loc \<and> col_dist ic tcs x < 100\<^sup>2 then chosen loc ic tcs x else loc)"
  using assms
  by (cases x) (auto simp: scan_body_def index_def less_min_def Let_def col_dist_def chosen_def)

lemma scan_from_none:
  assumes "\<forall>jt \<in> set jts. fst jt < length tcs" "min_dist loc = None"
  shows "for_loop (scan_body ic tcs) jts loc = Inr (scan_result loc ic tcs jts)"
  using assms
proof (induction jts)
  case Nil
  then show ?case by (simp add: scan_result_def unclaimed_cols_def)
next
  case (Cons x jts)
  let ?f = "col_dist ic tcs" and ?U = "unclaimed_cols loc jts"
  show ?case
  proof (cases "fst x \<in> used_cols loc")
    case True
    then have "unclaimed_cols loc (x # jts) = ?U" by (simp add: unclaimed_cols_def)
    then show ?thesis
      using Cons True by (simp add: scan_body_none scan_result_def)
  next
    case False
    then have U: "unclaimed_cols loc (x # jts) = x # ?U" by (simp add: unclaimed_cols_def)
    show ?thesis
    proof (cases "?f x < 100\<^sup>2")
      case True
      have le: "?f (arg_min_list ?f (x # ?U)) \<le> ?f x" by (rule arg_min_list_le_head)
      have "for_loop (scan_body ic tcs) jts (chosen loc ic tcs x) =
              Inr (chosen loc ic tcs (arg_min_list ?f (x # ?U)))"
        using scan_from_chosen [of jts tcs ic x loc] Cons.prems True by simp
      then show ?thesis
        using Cons.prems False True le U
        by (simp add: scan_body_none scan_result_def del: arg_min_list.simps)
    next
      case far: False
      have "scan_result loc ic tcs (x # jts) = scan_result loc ic tcs jts"
      proof (cases "?U = []")
        case True
        then show ?thesis using far U by (simp add: scan_result_def)
      next
        case False
        then obtain y ys where ys: "?U = y # ys" by (cases ?U) auto
        show ?thesis
          using far U by (auto simp: scan_result_def ys Let_def)
      qed
      then show ?thesis
        using Cons False far by (simp add: scan_body_none)
    qed
  qed
qed

lemma euclid_dist_sq: "euclid a b = sqrt (real_of_int (dist_sq a b))"
  by (simp add: euclid_def dist_sq_def)

lemma euclid_less_100: "euclid a b < 100 \<longleftrightarrow> dist_sq a b < 100\<^sup>2"
proof -
  have "(100::real) = sqrt (real_of_int (100\<^sup>2))" by simp
  then have "euclid a b < 100 \<longleftrightarrow> sqrt (real_of_int (dist_sq a b)) < sqrt (real_of_int (100\<^sup>2))"
    by (simp only: euclid_dist_sq)
  also have "\<dots> \<longleftrightarrow> dist_sq a b < 100\<^sup>2"
    by (simp only: real_sqrt_less_iff of_int_less_iff)
  finally show ?thesis .
qed

lemma euclid_less_iff: "euclid a b < euclid c d \<longleftrightarrow> dist_sq a b < dist_sq c d"
  by (simp add: euclid_dist_sq)

lemma euclid_le_iff: "euclid a b \<le> euclid c d \<longleftrightarrow> dist_sq a b \<le> dist_sq c d"
  by (simp add: euclid_dist_sq)

lemma arg_min_list_map:
  fixes f :: "'b \<Rightarrow> 'c::linorder"
  shows "xs \<noteq> [] \<Longrightarrow> arg_min_list f (map g xs) = g (arg_min_list (\<lambda>x. f (g x)) xs)"
proof (induction xs rule: induct_list012)
  case (3 x y zs)
  then show ?case by (simp add: Let_def)
qed simp_all

lemma arg_min_list_order_cong:
  fixes f :: "'a \<Rightarrow> 'b::linorder" and h :: "'a \<Rightarrow> 'c::linorder"
  assumes "\<And>x y. f x \<le> f y \<longleftrightarrow> h x \<le> h y"
  shows "xs \<noteq> [] \<Longrightarrow> arg_min_list f xs = arg_min_list h xs"
proof (induction xs rule: induct_list012)
  case (3 x y zs)
  then show ?case by (simp add: Let_def assms)
qed simp_all

lemma map_col_track_enumerate:
  "length tcs = length tids \<Longrightarrow> map (col_track tcs) (enumerate 0 tids) = zip tids tcs"
  by (auto simp: list_eq_iff_nth_eq nth_enumerate_eq col_track_def)

lemma unclaimed_bridge:
  assumes "\<forall>jt \<in> set jts. fst jt \<in> used_cols loc \<longleftrightarrow> snd jt \<in> claimed"
  shows "filter (\<lambda>kc. fst kc \<notin> claimed) (map (col_track tcs) jts) =
           map (col_track tcs) (unclaimed_cols loc jts)"
  using assms by (induction jts) (auto simp: unclaimed_cols_def col_track_def)

lemma nearest_bridge:
  assumes "V \<noteq> []"
  shows "nearest ic (map (col_track tcs) V) = col_track tcs (arg_min_list (col_dist ic tcs) V)"
proof -
  have "arg_min_list (\<lambda>x. euclid ic (snd (col_track tcs x))) V = arg_min_list (col_dist ic tcs) V"
    by (rule arg_min_list_order_cong [OF _ assms])
       (simp add: euclid_le_iff col_track_def col_dist_def)
  then show ?thesis
    by (simp add: nearest_def arg_min_list_map [OF assms])
qed

lemma enumerate_distinct_cols:
  assumes "distinct tids" "a \<in> set (enumerate 0 tids)" "b \<in> set (enumerate 0 tids)"
  shows "fst a = fst b \<longleftrightarrow> snd a = snd b"
proof -
  from assms(2,3) have a: "fst a < length tids" "snd a = tids ! fst a"
    and b: "fst b < length tids" "snd b = tids ! fst b"
    by (auto simp: in_set_enumerate_eq)
  show ?thesis
    using nth_eq_iff_index_eq [OF assms(1) a(1) b(1)] by (simp add: a(2) b(2))
qed

lemma assign_body_step:
  assumes d: "distinct tids" and len: "length tcs = length tids"
    and inv: "cols_claimed tids loc claimed"
    and fresh: "i \<notin> set (keys (assignments loc))"
  defines "U \<equiv> filter (\<lambda>kc. fst kc \<notin> claimed) (zip tids tcs)"
  shows "\<exists>loc1. assign_body tids tcs (i, ic) loc = Inr loc1 \<and>
     (if U \<noteq> [] \<and> euclid ic (snd (nearest ic U)) < 100
      then assignments loc1 = assignments loc @ [(i, fst (nearest ic U))] \<and>
           used_rows loc1 = insert i (used_rows loc) \<and>
           cols_claimed tids loc1 (insert (fst (nearest ic U)) claimed)
      else assignments loc1 = assignments loc \<and> used_rows loc1 = used_rows loc \<and>
           cols_claimed tids loc1 claimed)"
proof -
  let ?jts = "enumerate 0 tids"
  let ?loc0 = "loc\<lparr>min_dist := None, best_track := None\<rparr>"
  let ?V = "unclaimed_cols ?loc0 ?jts"
  let ?m = "arg_min_list (col_dist ic tcs) ?V"
  have rng: "\<forall>jt \<in> set ?jts. fst jt < length tcs"
    using len by (auto simp: in_set_enumerate_eq)
  have scan: "for_loop (scan_body ic tcs) ?jts ?loc0 = Inr (scan_result ?loc0 ic tcs ?jts)"
    by (rule scan_from_none [OF rng]) simp
  have inv0: "\<forall>jt \<in> set ?jts. fst jt \<in> used_cols ?loc0 \<longleftrightarrow> snd jt \<in> claimed"
    using inv by (simp add: cols_claimed_def)
  have UV: "U = map (col_track tcs) ?V"
    unfolding U_def using unclaimed_bridge [OF inv0, of tcs]
    by (simp add: map_col_track_enumerate [OF len])
  show ?thesis
  proof (cases "U \<noteq> [] \<and> euclid ic (snd (nearest ic U)) < 100")
    case True
    then have V: "?V \<noteq> []" by (simp add: UV)
    have near: "nearest ic U = col_track tcs ?m"
      by (simp only: UV nearest_bridge [OF V])
    have gate: "col_dist ic tcs ?m < 100\<^sup>2"
      using True by (simp add: near euclid_less_100 col_track_def col_dist_def)
    have res: "scan_result ?loc0 ic tcs ?jts = chosen ?loc0 ic tcs ?m"
      using V gate by (simp add: scan_result_def)
    have m_in: "?m \<in> set ?jts"
      using arg_min_list_in [OF V, of "col_dist ic tcs"] by (auto simp: unclaimed_cols_def)
    let ?loc1 = "(chosen ?loc0 ic tcs ?m)\<lparr>assignments := setitem (assignments loc) i (snd ?m),
                   used_rows := insert i (used_rows loc),
                   used_cols := insert (fst ?m) (used_cols loc)\<rparr>"
    have body: "assign_body tids tcs (i, ic) loc = Inr ?loc1"
      by (simp add: assign_body_def scan res) (simp add: chosen_def)
    have claimed: "cols_claimed tids ?loc1 (insert (snd ?m) claimed)"
      unfolding cols_claimed_def
    proof
      fix jt assume jt: "jt \<in> set ?jts"
      have "fst jt = fst ?m \<longleftrightarrow> snd jt = snd ?m"
        by (rule enumerate_distinct_cols [OF d jt m_in])
      moreover have "fst jt \<in> used_cols loc \<longleftrightarrow> snd jt \<in> claimed"
        using inv jt by (simp add: cols_claimed_def)
      ultimately show "fst jt \<in> used_cols ?loc1 \<longleftrightarrow> snd jt \<in> insert (snd ?m) claimed"
        by (simp add: chosen_def)
    qed
    have "assignments ?loc1 = assignments loc @ [(i, fst (nearest ic U))]"
      by (simp add: chosen_def setitem_append [OF fresh] near col_track_def)
    moreover have "used_rows ?loc1 = insert i (used_rows loc)"
      by (simp add: chosen_def)
    moreover have "fst (nearest ic U) = snd ?m"
      by (simp add: near col_track_def)
    ultimately show ?thesis
      using True body claimed by auto
  next
    case False
    have res: "scan_result ?loc0 ic tcs ?jts = ?loc0"
    proof (cases "?V = []")
      case True
      then show ?thesis by (simp add: scan_result_def)
    next
      case V: False
      have near: "nearest ic U = col_track tcs ?m"
        by (simp only: UV nearest_bridge [OF V])
      have "U \<noteq> []" using V by (simp add: UV)
      with False have "\<not> col_dist ic tcs ?m < 100\<^sup>2"
        by (simp add: near euclid_less_100 col_track_def col_dist_def)
      then show ?thesis by (simp add: scan_result_def)
    qed
    have "assign_body tids tcs (i, ic) loc = Inr ?loc0"
      by (simp add: assign_body_def scan res)
    moreover have "cols_claimed tids ?loc0 claimed"
      using inv by (simp add: cols_claimed_def)
    ultimately show ?thesis
      using False by auto
  qed
qed

lemma assign_loop:
  assumes "distinct tids" "length tcs = length tids"
    and "cols_claimed tids loc claimed"
    and "\<forall>k \<in> set (keys (assignments loc)). k < n"
  shows "\<exists>loc'. for_loop (assign_body tids tcs) (enumerate n cs) loc = Inr loc' \<and>
           assignments loc' = assignments loc @ greedy_match (zip tids tcs) claimed (enumerate n cs) \<and>
           used_rows loc' =
             used_rows loc \<union> set (keys (greedy_match (zip tids tcs) claimed (enumerate n cs)))"
  using assms(3,4)
proof (induction cs arbitrary: n loc claimed)
  case Nil
  then show ?case by simp
next
  case (Cons c cs)
  let ?U = "filter (\<lambda>kc. fst kc \<notin> claimed) (zip tids tcs)"
  have fresh: "n \<notin> set (keys (assignments loc))"
    using Cons.prems(2) by auto
  from assign_body_step [OF assms(1,2) Cons.prems(1) fresh, of c]
  obtain loc1 where body: "assign_body tids tcs (n, c) loc = Inr loc1"
    and step: "if ?U \<noteq> [] \<and> euclid c (snd (nearest c ?U)) < 100
      then assignments loc1 = assignments loc @ [(n, fst (nearest c ?U))] \<and>
           used_rows loc1 = insert n (used_rows loc) \<and>
           cols_claimed tids loc1 (insert (fst (nearest c ?U)) claimed)
      else assignments loc1 = assignments loc \<and> used_rows loc1 = used_rows loc \<and>
           cols_claimed tids loc1 claimed"
    by blast
  show ?case
  proof (cases "?U \<noteq> [] \<and> euclid c (snd (nearest c ?U)) < 100")
    case True
    with step have s: "assignments loc1 = assignments loc @ [(n, fst (nearest c ?U))]"
      "used_rows loc1 = insert n (used_rows loc)"
      "cols_claimed tids loc1 (insert (fst (nearest c ?U)) claimed)"
      by simp_all
    have "\<forall>k \<in> set (keys (assignments loc1)). k < Suc n"
      using Cons.prems(2) by (auto simp: s(1))
    from Cons.IH [OF s(3) this] show ?thesis
      using True by (auto simp: body s Let_def)
  next
    case False
    with step have s: "assignments loc1 = assignments loc" "used_rows loc1 = used_rows loc"
      "cols_claimed tids loc1 claimed"
      by auto
    have "\<forall>k \<in> set (keys (assignments loc1)). k < Suc n"
      using Cons.prems(2) by (auto simp: s(1) less_Suc_eq)
    from Cons.IH [OF s(3) this] show ?thesis
      using False by (auto simp: body s Let_def)
  qed
qed

lemma greedy_match_keys:
  "set (keys (greedy_match trks claimed dets)) \<subseteq> set (keys dets)"
  by (induction dets arbitrary: claimed) (auto simp: Let_def)

lemma greedy_match_keys_distinct:
  "distinct (keys dets) \<Longrightarrow> distinct (keys (greedy_match trks claimed dets))"
proof (induction dets arbitrary: claimed)
  case Nil
  then show ?case by simp
next
  case (Cons ic dets)
  then show ?case
    using greedy_match_keys [of trks _ dets] by (auto simp: Let_def)
qed

lemma nearest_unclaimed:
  assumes "filter (\<lambda>kc. fst kc \<notin> claimed) trks \<noteq> []"
  shows "fst (nearest c (filter (\<lambda>kc. fst kc \<notin> claimed) trks)) \<in> set (keys trks) - claimed"
proof -
  have "nearest c (filter (\<lambda>kc. fst kc \<notin> claimed) trks) \<in> set (filter (\<lambda>kc. fst kc \<notin> claimed) trks)"
    unfolding nearest_def by (rule arg_min_list_in [OF assms])
  then show ?thesis by (auto simp: keys_def)
qed

lemma greedy_match_values:
  "set (map snd (greedy_match trks claimed dets)) \<subseteq> set (keys trks) - claimed"
proof (induction dets arbitrary: claimed)
  case Nil
  then show ?case by simp
next
  case (Cons ic dets)
  let ?U = "filter (\<lambda>kc. fst kc \<notin> claimed) trks"
  show ?case
  proof (cases "?U \<noteq> [] \<and> euclid (snd ic) (snd (nearest (snd ic) ?U)) < 100")
    case True
    then have "fst (nearest (snd ic) ?U) \<in> set (keys trks) - claimed"
      using nearest_unclaimed by blast
    moreover have "set (map snd (greedy_match trks (insert (fst (nearest (snd ic) ?U)) claimed) dets))
                     \<subseteq> set (keys trks) - insert (fst (nearest (snd ic) ?U)) claimed"
      by (rule Cons.IH)
    ultimately show ?thesis using True by (auto simp: Let_def)
  next
    case False
    then show ?thesis using Cons.IH [of claimed] by (auto simp: Let_def)
  qed
qed

lemma greedy_match_values_distinct:
  "distinct (map snd (greedy_match trks claimed dets))"
proof (induction dets arbitrary: claimed)
  case Nil
  then show ?case by simp
next
  case (Cons ic dets)
  let ?U = "filter (\<lambda>kc. fst kc \<notin> claimed) trks"
  show ?case
    using Cons.IH greedy_match_values [of trks "insert (fst (nearest (snd ic) ?U)) claimed" dets]
    by (auto simp: Let_def)
qed

lemma keys_map_refreshed [simp]: "keys (map (refreshed asg cs) trs) = keys trs"
  by (induction trs) (auto simp: refreshed_def split: list.splits)

lemma refresh_body_step:
  assumes "k \<notin> set (keys pre)" "\<forall>iv \<in> set asg. fst iv < length cs"
  shows "refresh_body asg cs k (pre @ (k, tr) # suf) = Inr (pre @ refreshed asg cs (k, tr) # suf)"
proof (cases "filter (\<lambda>iv. snd iv = k) asg")
  case Nil
  then have "k \<notin> set (map snd asg)"
    by (auto simp: filter_empty_conv)
  then show ?thesis
    using assms(1) Nil
    by (simp add: refresh_body_def refreshed_def getitem_split setitem_split aged_def)
next
  case (Cons iv ivs)
  then have "iv \<in> set (filter (\<lambda>iv. snd iv = k) asg)" by simp
  then have iv: "iv \<in> set asg" "snd iv = k" by auto
  then have "k \<in> set (map snd asg)" "fst iv < length cs"
    using assms(2) by force+
  then show ?thesis
    using assms(1) Cons
    by (simp add: refresh_body_def refreshed_def index_def getitem_split setitem_split new_track_def)
qed

lemma refresh_loop:
  assumes "\<forall>iv \<in> set asg. fst iv < length cs"
  shows "distinct (keys (pre @ suf)) \<Longrightarrow>
         for_loop (refresh_body asg cs) (keys suf) (pre @ suf) =
           Inr (pre @ map (refreshed asg cs) suf)"
proof (induction suf arbitrary: pre)
  case Nil
  then show ?case by simp
next
  case (Cons kt suf)
  obtain k tr where kt: "kt = (k, tr)" by (cases kt)
  from Cons.prems have k: "k \<notin> set (keys pre)" by (auto simp: kt)
  have fst_r: "fst (refreshed asg cs (k, tr)) = k"
    by (simp add: refreshed_def split: list.splits)
  have "distinct (keys ((pre @ [refreshed asg cs (k, tr)]) @ suf))"
    using Cons.prems by (simp add: kt fst_r)
  from Cons.IH [OF this] show ?case
    using k by (simp add: kt refresh_body_step [OF _ assms])
qed

lemma fold_add_body:
  "fold (add_body rows) ics self =
     fold register (map snd (filter (\<lambda>ic. fst ic \<notin> rows) ics)) self"
  by (induction ics arbitrary: self) (auto simp: add_body_def split: prod.splits)

lemma distinct_fold_register:
  "distinct (keys (tracks self)) \<Longrightarrow> distinct (keys (tracks (fold register cs self)))"
  by (induction cs arbitrary: self) (simp_all add: register_def setitem_def keys_def distinct_update)

lemma zip_keys_centroids:
  "zip (keys trs) (map (\<lambda>kt. centroid (snd kt)) trs) = map (\<lambda>kt. (fst kt, centroid (snd kt))) trs"
  by (induction trs) simp_all

lemma matching_rows:
  "iv \<in> set (matching self detections) \<Longrightarrow> fst iv < length detections"
  using greedy_match_keys [of "map (\<lambda>kt. (fst kt, centroid (snd kt))) (tracks self)" "{}"
      "enumerate 0 (map centroid_of detections)"]
  by (auto simp: matching_def keys_def)

lemma update_matching:
  assumes d: "distinct (keys (tracks self))" and "detections \<noteq> []" "tracks self \<noteq> []"
  defines "cs \<equiv> map centroid_of detections"
  defines "asg \<equiv> matching self detections"
  defines "self2 \<equiv> fold register (unmatched asg cs)
                      (self\<lparr>tracks := map (refreshed asg cs) (tracks self)\<rparr>)"
  shows "update self detections =
           Inr (keys (filter alive (tracks self2)), self2\<lparr>tracks := filter alive (tracks self2)\<rparr>)"
proof -
  let ?tids = "keys (tracks self)" and ?tcs = "map (\<lambda>kt. centroid (snd kt)) (tracks self)"
  have comp: "comprehension (\<lambda>tid. map_sum id centroid (getitem (tracks self) tid)) ?tids = Inr ?tcs"
    using track_centroids_comprehension [of "[]" "tracks self"] d by simp
  have len: "length ?tcs = length ?tids"
    by (simp add: keys_def)
  have c0: "cols_claimed ?tids init_locals {}"
    by (simp add: cols_claimed_def init_locals_def)
  have k0: "\<forall>k \<in> set (keys (assignments init_locals)). k < 0"
    by (simp add: init_locals_def)
  from assign_loop [OF d len c0 k0, of cs] obtain loc where
    loop: "for_loop (assign_body ?tids ?tcs) (enumerate 0 cs) init_locals = Inr loc"
    and asg: "assignments loc = asg" and rows: "used_rows loc = set (keys asg)"
    by (auto simp: init_locals_def zip_keys_centroids matching_def asg_def cs_def)
  have rng: "\<forall>iv \<in> set asg. fst iv < length cs"
    using matching_rows by (auto simp: asg_def cs_def)
  have refresh: "for_loop (refresh_body asg cs) ?tids (tracks self) =
                   Inr (map (refreshed asg cs) (tracks self))"
    using refresh_loop [OF rng, of "[]" "tracks self"] d by simp
  have add: "fold (add_body (used_rows loc)) (enumerate 0 cs)
               (self\<lparr>tracks := map (refreshed asg cs) (tracks self)\<rparr>) = self2"
    by (simp add: fold_add_body rows self2_def unmatched_def)
  have "distinct (keys (tracks self2))"
    unfolding self2_def by (rule distinct_fold_register) (simp add: d)
  then have remove: "for_loop remove_body (keys (tracks self2)) (tracks self2) =
                       Inr (filter alive (tracks self2))"
    using remove_loop [of "[]" "tracks self2"] by simp
  show ?thesis
    using assms(2,3)
    by (simp add: update_def comp cs_def [symmetric] loop asg refresh add remove)
qed

section \<open>The result of a call\<close>

lemma greedy_match_no_tracks [simp]: "greedy_match [] claimed dets = []"
  by (induction dets) simp_all

lemma alive_new_track [simp]: "alive (k, new_track c)"
  by (simp add: alive_def new_track_def max_disappeared_def)

lemma filter_alive_zip_new:
  "filter alive (zip ks (map new_track cs)) = zip ks (map new_track cs)"
  by (rule filter_True) (auto simp: in_set_zip)

lemma update_detections:
  assumes d: "distinct (keys (tracks self))" and ne: "detections \<noteq> []"
  defines "cs \<equiv> map centroid_of detections"
  defines "asg \<equiv> matching self detections"
  defines "self2 \<equiv> fold register (unmatched asg cs)
                      (self\<lparr>tracks := map (refreshed asg cs) (tracks self)\<rparr>)"
  shows "update self detections =
           Inr (keys (filter alive (tracks self2)), self2\<lparr>tracks := filter alive (tracks self2)\<rparr>)"
proof (cases "tracks self = []")
  case False
  then show ?thesis
    using update_matching [OF d ne] by (simp add: cs_def asg_def self2_def)
next
  case True
  then have asg: "asg = []" by (simp add: asg_def matching_def)
  have un: "unmatched asg cs = cs" by (simp add: asg unmatched_def)
  have "self\<lparr>tracks := map (refreshed asg cs) (tracks self)\<rparr> = self"
    using True by simp
  then have self2: "self2 = fold register cs self"
    by (simp only: self2_def un)
  have "tracks (fold register cs self) =
          zip [next_id self .. next_id self + int (length cs) - 1] (map new_track cs)"
    using True by (subst fold_register) simp_all
  then have "filter alive (tracks self2) = tracks self2"
    by (simp add: self2 filter_alive_zip_new)
  then show ?thesis
    using True ne by (simp add: update_def self2 cs_def Let_def)
qed

lemma update_well_formed:
  assumes wf: "well_formed self" and ne: "detections \<noteq> []"
  shows "update self detections =
           Inr (keys (survivors self detections @ created self detections),
                \<lparr>tracks = survivors self detections @ created self detections,
                 next_id = next_id self +
                   int (length (unmatched (matching self detections) (map centroid_of detections)))\<rparr>)"
proof -
  let ?cs = "map centroid_of detections" and ?asg = "matching self detections"
  let ?self1 = "self\<lparr>tracks := map (refreshed ?asg ?cs) (tracks self)\<rparr>"
  from wf have d: "distinct (keys (tracks self))"
    and lt: "\<forall>k \<in> set (keys (tracks ?self1)). k < next_id ?self1"
    by (simp_all add: well_formed_def)
  have "filter alive (tracks (fold register (unmatched ?asg ?cs) ?self1)) =
          survivors self detections @ created self detections"
    by (simp add: fold_register [OF lt] survivors_def created_def filter_alive_zip_new Let_def)
  moreover have "next_id (fold register (unmatched ?asg ?cs) ?self1) =
                   next_id self + int (length (unmatched ?asg ?cs))"
    by (simp add: fold_register [OF lt])
  ultimately show ?thesis
    by (simp add: update_detections [OF d ne])
qed

lemma update_total_aux:
  assumes "distinct (keys (tracks self))"
  shows "\<exists>ids self'. update self detections = Inr (ids, self')"
proof (cases "detections = []")
  case True
  then show ?thesis by (simp add: update_no_detections [OF assms])
next
  case False
  then show ?thesis by (simp add: update_detections [OF assms])
qed


lemma frame_step_no_detections:
  assumes "distinct (keys (tracks self))"
  shows "frame_step [] self = Inr (self\<lparr>tracks := filter alive (map (apsnd aged) (tracks self))\<rparr>)"
  by (simp add: frame_step_def update_no_detections [OF assms])

lemma run_simps [simp]:
  "run self [] = Inr self"
  "run self (f # fs) = (case frame_step f self of Inl e \<Rightarrow> Inl e | Inr self' \<Rightarrow> run self' fs)"
  by (simp_all add: run_def split: sum.splits)

lemma run_no_tracks:
  "run \<lparr>tracks = [], next_id = n\<rparr> (replicate k []) = Inr \<lparr>tracks = [], next_id = n\<rparr>"
  by (induction k) (simp_all add: frame_step_no_detections)

lemma run_single_track:
  "d \<le> 10 \<Longrightarrow>
   run \<lparr>tracks = [(i, \<lparr>centroid = c, disappeared = d\<rparr>)], next_id = n\<rparr> (replicate k []) =
     Inr \<lparr>tracks = (if d + int k \<le> 10 then [(i, \<lparr>centroid = c, disappeared = d + int k\<rparr>)] else []),
          next_id = n\<rparr>"
proof (induction k arbitrary: d)
  case 0
  then show ?case by simp
next
  case (Suc k)
  show ?case
  proof (cases "d + 1 \<le> 10")
    case True
    from Suc.IH [OF True] show ?thesis
      using True
      by (simp add: frame_step_no_detections aged_def alive_def max_disappeared_def add.assoc
               add.commute [of 1])
  next
    case False
    then show ?thesis
      using Suc.prems
      by (simp add: frame_step_no_detections aged_def alive_def max_disappeared_def run_no_tracks)
  qed
qed

section \<open>Properties of the matching\<close>

lemma assignment_pass:
  assumes d: "distinct (keys (tracks self))"
  shows "\<exists>loc. for_loop (assign_body (keys (tracks self))
                          (map (\<lambda>kt. centroid (snd kt)) (tracks self)))
                  (enumerate 0 (map centroid_of detections)) init_locals = Inr loc \<and>
               assignments loc = matching self detections \<and>
               used_rows loc = set (keys (matching self detections))"
proof -
  let ?tids = "keys (tracks self)" and ?tcs = "map (\<lambda>kt. centroid (snd kt)) (tracks self)"
  have len: "length ?tcs = length ?tids"
    by (simp add: keys_def)
  have c0: "cols_claimed ?tids init_locals {}"
    by (simp add: cols_claimed_def init_locals_def)
  have k0: "\<forall>k \<in> set (keys (assignments init_locals)). k < 0"
    by (simp add: init_locals_def)
  from assign_loop [OF d len c0 k0, of "map centroid_of detections"] show ?thesis
    by (auto simp: init_locals_def zip_keys_centroids matching_def)
qed

lemma matching_distinct:
  "distinct (keys (matching self detections))" "distinct (map snd (matching self detections))"
  "set (map snd (matching self detections)) \<subseteq> set (keys (tracks self))"
proof -
  show "distinct (keys (matching self detections))"
    unfolding matching_def by (rule greedy_match_keys_distinct) (simp add: keys_def)
  show "distinct (map snd (matching self detections))"
    unfolding matching_def by (rule greedy_match_values_distinct)
  show "set (map snd (matching self detections)) \<subseteq> set (keys (tracks self))"
    using greedy_match_values [of "map (\<lambda>kt. (fst kt, centroid (snd kt))) (tracks self)" "{}"
            "enumerate 0 (map centroid_of detections)"]
    by (auto simp: matching_def keys_def comp_def)
qed




text \<open>Rewrite rules that evaluate the vocabulary on concrete trackers.\<close>

lemmas euclid_eval = euclid_le_iff euclid_less_100 dist_sq_def nearest_def matching_def
  refreshed_def unmatched_def alive_def aged_def new_track_def max_disappeared_def
  centroid_of_def py_int_def register_def setitem_def

section \<open>Old and new tracks after a call\<close>

lemma getitem_member:
  assumes "distinct (keys d)" "(k, v) \<in> set d"
  shows "getitem d k = Inr v"
proof -
  from assms(2) obtain pre suf where split: "d = pre @ (k, v) # suf"
    by (auto simp: in_set_conv_decomp)
  with assms(1) have "k \<notin> set (keys pre)" by simp
  then show ?thesis unfolding split by (rule getitem_split)
qed

lemma zip_upto_nth:
  "zip [n .. n + int (length xs) - 1] (map f xs) =
     map (\<lambda>p. (n + int p, f (xs ! p))) [0 ..< length xs]"
proof (rule nth_equalityI)
  show "length (zip [n .. n + int (length xs) - 1] (map f xs)) =
          length (map (\<lambda>p. (n + int p, f (xs ! p))) [0 ..< length xs])"
    by simp
next
  fix i assume "i < length (zip [n .. n + int (length xs) - 1] (map f xs))"
  then have i: "i < length xs" by simp
  then have "[n .. n + int (length xs) - 1] ! i = n + int i"
    by (intro nth_upto) simp
  then show "zip [n .. n + int (length xs) - 1] (map f xs) ! i =
               map (\<lambda>p. (n + int p, f (xs ! p))) [0 ..< length xs] ! i"
    using i by simp
qed

lemma created_nth:
  "created self detections =
     map (\<lambda>p. (next_id self + int p,
                new_track (unmatched (matching self detections) (map centroid_of detections) ! p)))
       [0 ..< length (unmatched (matching self detections) (map centroid_of detections))]"
  by (simp add: created_def Let_def zip_upto_nth)

lemma keys_created:
  "keys (created self detections) =
     map (\<lambda>p. next_id self + int p)
       [0 ..< length (unmatched (matching self detections) (map centroid_of detections))]"
  by (simp add: created_nth keys_def comp_def)

lemma keys_created_range:
  "k \<in> set (keys (created self detections)) \<longleftrightarrow>
     next_id self \<le> k \<and>
     k < next_id self + int (length (unmatched (matching self detections) (map centroid_of detections)))"
proof -
  have "k \<in> set (keys (created self detections)) \<longleftrightarrow>
          (\<exists>p < length (unmatched (matching self detections) (map centroid_of detections)).
             k = next_id self + int p)"
    by (auto simp: keys_created)
  also have "\<dots> \<longleftrightarrow> next_id self \<le> k \<and>
     k < next_id self + int (length (unmatched (matching self detections) (map centroid_of detections)))"
  proof
    assume "next_id self \<le> k \<and>
     k < next_id self + int (length (unmatched (matching self detections) (map centroid_of detections)))"
    then have "nat (k - next_id self) < length (unmatched (matching self detections) (map centroid_of detections))"
      "k = next_id self + int (nat (k - next_id self))"
      by auto
    then show "\<exists>p < length (unmatched (matching self detections) (map centroid_of detections)).
             k = next_id self + int p"
      by blast
  qed auto
  finally show ?thesis .
qed

lemma distinct_keys_created: "distinct (keys (created self detections))"
  by (simp add: keys_created distinct_map inj_on_def)

lemma fst_refreshed [simp]: "fst (refreshed asg cs kt) = fst kt"
  by (simp add: refreshed_def split: list.splits)

lemma keys_survivors:
  "set (keys (survivors self detections)) \<subseteq> set (keys (tracks self))"
  by (auto simp: survivors_def keys_def intro: rev_image_eqI)

lemma distinct_keys_survivors:
  assumes "distinct (keys (tracks self))"
  shows "distinct (keys (survivors self detections))"
proof -
  have "distinct (map fst (map (refreshed (matching self detections) (map centroid_of detections))
                             (tracks self)))"
    using assms by (simp add: keys_def comp_def)
  then show ?thesis
    unfolding survivors_def keys_def by (rule distinct_map_filter)
qed

lemma distinct_result:
  assumes "well_formed self"
  shows "distinct (keys (survivors self detections @ created self detections))"
proof -
  have "set (keys (survivors self detections)) \<inter> set (keys (created self detections)) = {}"
    using assms keys_survivors [of self detections]
    by (fastforce simp: keys_created_range well_formed_def)
  then show ?thesis
    using assms by (simp add: distinct_keys_created distinct_keys_survivors well_formed_def)
qed

lemma filter_unique_value:
  assumes "(i, k) \<in> set asg" "distinct (map snd asg)"
  shows "filter (\<lambda>iv. snd iv = k) asg = [(i, k)]"
  using assms
proof (induction asg)
  case Nil
  then show ?case by simp
next
  case (Cons a asg)
  show ?case
  proof (cases "a = (i, k)")
    case True
    with Cons.prems(2) have "\<forall>iv \<in> set asg. snd iv \<noteq> k" by force
    then have "filter (\<lambda>iv. snd iv = k) asg = []"
      by (simp add: filter_empty_conv)
    with True show ?thesis by simp
  next
    case False
    with Cons.prems have in_rest: "(i, k) \<in> set asg" and d: "distinct (map snd asg)"
      and fresh: "snd a \<notin> snd ` set asg"
      by auto
    from in_rest have "k \<in> snd ` set asg" by force
    with fresh have "snd a \<noteq> k" by blast
    with Cons.IH [OF in_rest d] show ?thesis by simp
  qed
qed

lemma refreshed_matched:
  assumes "(i, k) \<in> set asg" "distinct (map snd asg)"
  shows "refreshed asg cs (k, tr) = (k, new_track (cs ! i))"
  by (simp add: refreshed_def filter_unique_value [OF assms])

lemma refreshed_unmatched:
  assumes "k \<notin> set (map snd asg)"
  shows "refreshed asg cs (k, tr) = (k, aged tr)"
proof -
  have "filter (\<lambda>iv. snd iv = k) asg = []"
    using assms by (auto simp: filter_empty_conv)
  then show ?thesis by (simp add: refreshed_def)
qed


lemma matching_no_detections [simp]: "matching self [] = []"
  by (simp add: matching_def)

lemma refreshed_no_assignment: "refreshed [] cs = apsnd aged"
  by (rule ext) (simp add: refreshed_def apsnd_def map_prod_def split: prod.splits)

lemma update_result:
  assumes wf: "well_formed self"
  shows "\<exists>ids. update self detections =
           Inr (ids, \<lparr>tracks = survivors self detections @ created self detections,
                      next_id = next_id self +
                        int (length (unmatched (matching self detections) (map centroid_of detections)))\<rparr>) \<and>
           (detections \<noteq> [] \<longrightarrow> ids = keys (survivors self detections @ created self detections))"
proof (cases "detections = []")
  case True
  from wf have d: "distinct (keys (tracks self))" by (simp add: well_formed_def)
  show ?thesis
    using update_no_detections [OF d]
    by (simp add: True survivors_def created_def unmatched_def refreshed_no_assignment)
next
  case False
  then show ?thesis by (simp add: update_well_formed [OF wf False])
qed

lemma survivors_lookup:
  fixes detections :: "detection list"
  assumes d: "distinct (keys (tracks self))" and mem: "(k, tr) \<in> set (tracks self)"
  defines "r \<equiv> refreshed (matching self detections) (map centroid_of detections) (k, tr)"
  shows "alive r \<Longrightarrow> r \<in> set (survivors self detections)"
    and "\<not> alive r \<Longrightarrow> k \<notin> set (keys (survivors self detections))"
proof -
  show "alive r \<Longrightarrow> r \<in> set (survivors self detections)"
    using mem by (auto simp: survivors_def r_def)
  show "k \<notin> set (keys (survivors self detections))" if dead: "\<not> alive r"
  proof
    assume "k \<in> set (keys (survivors self detections))"
    then obtain kt where kt: "kt \<in> set (tracks self)"
      and a: "alive (refreshed (matching self detections) (map centroid_of detections) kt)"
      and k: "fst kt = k"
      by (auto simp: survivors_def keys_def)
    from kt k have "(k, snd kt) \<in> set (tracks self)" by (cases kt) auto
    with d mem have "snd kt = tr"
      unfolding keys_def by (metis eq_key_imp_eq_value)
    with k have "kt = (k, tr)" by (cases kt) auto
    with a dead show False by (simp add: r_def)
  qed
qed

lemma length_filter_le_map:
  assumes "\<forall>x \<in> set xs. Q x \<longrightarrow> P (g x)"
  shows "length (filter Q xs) \<le> length (filter P (map g xs))"
  using assms by (induction xs) auto

lemma length_filter_map:
  "length (filter (\<lambda>x. P (f x)) xs) = length (filter P (map f xs))"
  by (induction xs) simp_all

lemma length_unmatched:
  assumes "distinct (keys asg)" "set (keys asg) \<subseteq> {0 ..< length cs}"
  shows "length (unmatched asg cs) + length asg = length cs"
proof -
  have "length (unmatched asg cs) =
          length (filter (\<lambda>i. i \<notin> set (keys asg)) (map fst (enumerate 0 cs)))"
    using length_filter_map [of "\<lambda>i. i \<notin> set (keys asg)" fst "enumerate 0 cs"]
    by (simp add: unmatched_def)
  also have "\<dots> = card ({i. i \<notin> set (keys asg)} \<inter> {0 ..< length cs})"
    by (simp add: distinct_length_filter)
  also have "{i. i \<notin> set (keys asg)} \<inter> {0 ..< length cs} = {0 ..< length cs} - set (keys asg)"
    by auto
  also have "card \<dots> = length cs - card (set (keys asg))"
    using assms(2) by (simp add: card_Diff_subset)
  also have "card (set (keys asg)) = length asg"
    using distinct_card [OF assms(1)] by (simp add: keys_def)
  finally have "length (unmatched asg cs) = length cs - length asg" .
  moreover have "length asg \<le> length cs"
    using card_mono [OF _ assms(2)] distinct_card [OF assms(1)] by (simp add: keys_def)
  ultimately show ?thesis by simp
qed

lemma length_survivors:
  assumes d: "distinct (keys (tracks self))"
  shows "length (matching self detections) \<le> length (survivors self detections)"
proof -
  let ?asg = "matching self detections" and ?cs = "map centroid_of detections"
  let ?V = "set (map snd ?asg)"
  have "length ?asg = card ?V"
    using distinct_card [OF matching_distinct(2) [of self detections]] by simp
  also have "?V = {k. k \<in> ?V} \<inter> set (keys (tracks self))"
    using matching_distinct(3) [of self detections] by auto
  also have "card \<dots> = length (filter (\<lambda>k. k \<in> ?V) (keys (tracks self)))"
    using d by (simp add: distinct_length_filter)
  also have "\<dots> = length (filter (\<lambda>kt. fst kt \<in> ?V) (tracks self))"
    using length_filter_map [of "\<lambda>k. k \<in> ?V" fst "tracks self"]
    by (simp add: keys_def)
  also have "\<dots> \<le> length (filter alive (map (refreshed ?asg ?cs) (tracks self)))"
  proof (rule length_filter_le_map, intro ballI impI)
    fix kt assume "kt \<in> set (tracks self)" and "fst kt \<in> ?V"
    then obtain i where "(i, fst kt) \<in> set ?asg" by force
    from refreshed_matched [OF this matching_distinct(2), of ?cs "snd kt"]
    show "alive (refreshed ?asg ?cs kt)" by simp
  qed
  finally show ?thesis by (simp add: survivors_def)
qed

lemma matching_keys_range:
  "set (keys (matching self detections)) \<subseteq> {0 ..< length (map centroid_of detections)}"
  using matching_rows [of _ self detections] by (auto simp: keys_def)

text \<open>Rewrite rules that evaluate \<open>update\<close> on concrete trackers.\<close>

lemmas update_eval = update_def centroid_of_def py_int_def comp_def getitem_def setitem_def
  delitem_def index_def assign_body_def scan_body_def refresh_body_def add_body_def
  remove_body_def init_locals_def dist_sq_def less_min_def max_disappeared_def register_def

section \<open>The order of the ids\<close>

lemma ids_ordered_init: "ids_ordered init"
  by (simp add: ids_ordered_def init_def)

lemma ids_ordered_well_formed: "ids_ordered self \<Longrightarrow> well_formed self"
  by (auto simp: ids_ordered_def well_formed_def strict_sorted_iff)

lemma keys_created_upto:
  "keys (created self detections) =
     [next_id self .. next_id self +
        int (length (unmatched (matching self detections) (map centroid_of detections))) - 1]"
  by (simp add: created_def Let_def keys_def)

lemma sorted_keys_survivors:
  assumes "sorted_wrt (<) (keys (tracks self))"
  shows "sorted_wrt (<) (keys (survivors self detections))"
proof -
  have "sorted_wrt (\<lambda>x y. fst x < fst y) (tracks self)"
    using assms by (simp add: keys_def sorted_wrt_map)
  then have "sorted_wrt (\<lambda>x y. fst x < fst y)
               (map (refreshed (matching self detections) (map centroid_of detections)) (tracks self))"
    by (simp add: sorted_wrt_map)
  then have "sorted_wrt (\<lambda>x y. fst x < fst y) (survivors self detections)"
    unfolding survivors_def by (rule sorted_wrt_filter)
  then show ?thesis by (simp add: keys_def sorted_wrt_map)
qed

lemma update_ids_ordered:
  assumes ord: "ids_ordered self" and u: "update self detections = Inr (ids, self')"
  shows "ids_ordered self'" and "next_id self \<le> next_id self'"
    and "\<exists>kept. keys (tracks self') = kept @ [next_id self .. next_id self' - 1] \<and>
                 set kept \<subseteq> set (keys (tracks self))"
proof -
  let ?m = "int (length (unmatched (matching self detections) (map centroid_of detections)))"
  from update_result [OF ids_ordered_well_formed [OF ord], of detections] u
  have T: "tracks self' = survivors self detections @ created self detections"
    and n: "next_id self' = next_id self + ?m"
    by auto
  have keys: "keys (tracks self') =
                keys (survivors self detections) @ [next_id self .. next_id self' - 1]"
    by (simp add: T n keys_created_upto)
  show "next_id self \<le> next_id self'" by (simp add: n)
  show "\<exists>kept. keys (tracks self') = kept @ [next_id self .. next_id self' - 1] \<and>
               set kept \<subseteq> set (keys (tracks self))"
    using keys keys_survivors by blast
  have old: "\<forall>k \<in> set (keys (survivors self detections)). 1 \<le> k \<and> k < next_id self"
    using ord keys_survivors [of self detections] by (auto simp: ids_ordered_def)
  have "sorted_wrt (<) (keys (tracks self'))"
    unfolding keys using ord old
    by (auto simp: sorted_wrt_append sorted_keys_survivors ids_ordered_def)
  moreover have "\<forall>k \<in> set (keys (tracks self')). 1 \<le> k \<and> k < next_id self'"
    unfolding keys using ord old by (auto simp: n ids_ordered_def)
  moreover have "1 \<le> next_id self'"
    using ord by (simp add: n ids_ordered_def)
  ultimately show "ids_ordered self'"
    by (simp add: ids_ordered_def)
qed

lemma frame_step_update:
  "frame_step detections self = Inr self' \<longleftrightarrow> (\<exists>ids. update self detections = Inr (ids, self'))"
  by (auto simp: frame_step_def split: sum.splits)

lemma run_ids_ordered:
  assumes "ids_ordered self" "run self frames = Inr self'"
  shows "ids_ordered self' \<and> next_id self \<le> next_id self' \<and>
         (\<forall>k \<in> set (keys (tracks self')). k \<in> set (keys (tracks self)) \<or> next_id self \<le> k)"
  using assms
proof (induction frames arbitrary: self)
  case Nil
  then show ?case by simp
next
  case (Cons f frames)
  from Cons.prems(2) obtain s1 where step: "frame_step f self = Inr s1"
    and rest: "run s1 frames = Inr self'"
    by (auto split: sum.splits)
  from step obtain ids where u: "update self f = Inr (ids, s1)"
    by (auto simp: frame_step_update)
  note one = update_ids_ordered [OF Cons.prems(1) u]
  from Cons.IH [OF one(1) rest]
  have IH: "ids_ordered self'" "next_id s1 \<le> next_id self'"
    "\<forall>k \<in> set (keys (tracks self')). k \<in> set (keys (tracks s1)) \<or> next_id s1 \<le> k"
    by simp_all
  from one(3) obtain kept where
    k1: "keys (tracks s1) = kept @ [next_id self .. next_id s1 - 1]"
    and kept: "set kept \<subseteq> set (keys (tracks self))"
    by blast
  have "k \<in> set (keys (tracks self)) \<or> next_id self \<le> k"
    if "k \<in> set (keys (tracks self'))" for k
  proof -
    from IH(3) that have "k \<in> set (keys (tracks s1)) \<or> next_id s1 \<le> k" by blast
    then show ?thesis
      using kept one(2) by (auto simp: k1)
  qed
  then show ?case
    using IH(1,2) one(2) by auto
qed

text \<open>The invariant \<open>well_formed\<close> holds initially, every call keeps it, and so every
  tracker that \<open>run\<close> reaches from \<open>init\<close> satisfies it.\<close>

lemma well_formed_init: "well_formed init"
  by (simp add: well_formed_def init_def)

lemma update_keeps_well_formed:
  assumes wf: "well_formed self" and u: "update self detections = Inr (ids, self')"
  shows "well_formed self'"
proof -
  let ?m = "int (length (unmatched (matching self detections) (map centroid_of detections)))"
  from update_result [OF wf, of detections] u
  have T: "tracks self' = survivors self detections @ created self detections"
    and n: "next_id self' = next_id self + ?m"
    by auto
  have "\<forall>k \<in> set (keys (survivors self detections)). k < next_id self"
    using wf keys_survivors [of self detections] by (auto simp: well_formed_def)
  then have "\<forall>k \<in> set (keys (tracks self')). k < next_id self'"
    by (auto simp: T n keys_created_range)
  then show ?thesis
    using distinct_result [OF wf, of detections] by (simp add: well_formed_def T)
qed

lemma run_well_formed: "run init frames = Inr self \<Longrightarrow> well_formed self"
  using run_ids_ordered [OF ids_ordered_init] ids_ordered_well_formed by blast

section \<open>Numeric faults\<close>

text \<open>\<open>update_num\<close> against \<open>update\<close>: the two agree whenever \<open>update_num\<close> returns
  (\<open>update_num_returns\<close>), and \<open>update_num\<close> returns on well-formed rectangles and a
  bounded tracker (\<open>update_num_eq\<close>); a call keeps the tracker bounded.\<close>

lemma for_loop_cong:
  assumes "\<And>x s. x \<in> set xs \<Longrightarrow> body' x s = body x s"
  shows "for_loop body' xs s = for_loop body xs s"
  using assms by (induction xs arbitrary: s) (auto split: sum.splits)

lemma for_loop_refine:
  assumes "\<And>x s s'. body' x s = Inr s' \<Longrightarrow> body x s = Inr s'"
  shows "for_loop body' xs s = Inr r \<Longrightarrow> for_loop body xs s = Inr r"
proof (induction xs arbitrary: s)
  case Nil
  then show ?case by simp
next
  case (Cons x xs)
  from Cons.prems obtain s1 where b: "body' x s = Inr s1" and r: "for_loop body' xs s1 = Inr r"
    by (auto split: sum.splits)
  from assms [OF b] Cons.IH [OF r] show ?case by simp
qed

lemma scan_body_num_eq:
  assumes "\<forall>tc \<in> set tcs. dist_sq ic tc < 2 ^ 64"
  shows "scan_body_num ic tcs jt loc = scan_body ic tcs jt loc"
  using assms
  by (cases jt) (auto simp: scan_body_num_def scan_body_def np_sqrt_def index_def Let_def)

lemma scan_body_num_returns:
  "scan_body_num ic tcs jt loc = Inr l \<Longrightarrow> scan_body ic tcs jt loc = Inr l"
  by (cases jt)
     (auto simp: scan_body_num_def scan_body_def np_sqrt_def Let_def split: if_splits sum.splits)

lemma assign_body_num_eq:
  assumes "\<forall>tc \<in> set tcs. dist_sq (snd ic) tc < 2 ^ 64"
  shows "assign_body_num tids tcs ic loc = assign_body tids tcs ic loc"
proof -
  obtain i c where ic: "ic = (i, c)" by (cases ic)
  have "for_loop (scan_body_num c tcs) (enumerate 0 tids) (loc\<lparr>min_dist := None, best_track := None\<rparr>) =
        for_loop (scan_body c tcs) (enumerate 0 tids) (loc\<lparr>min_dist := None, best_track := None\<rparr>)"
    by (rule for_loop_cong) (use assms in \<open>simp add: ic scan_body_num_eq\<close>)
  then show ?thesis
    by (simp add: ic assign_body_num_def assign_body_def)
qed

lemma assign_body_num_returns:
  assumes "assign_body_num tids tcs ic loc = Inr l"
  shows "assign_body tids tcs ic loc = Inr l"
proof -
  obtain i c where ic: "ic = (i, c)" by (cases ic)
  from assms obtain loc1 where
    scan: "for_loop (scan_body_num c tcs) (enumerate 0 tids)
             (loc\<lparr>min_dist := None, best_track := None\<rparr>) = Inr loc1"
    by (auto simp: ic assign_body_num_def split: sum.splits)
  have "for_loop (scan_body c tcs) (enumerate 0 tids)
          (loc\<lparr>min_dist := None, best_track := None\<rparr>) = Inr loc1"
    by (rule for_loop_refine [OF scan_body_num_returns scan])
  with assms scan show ?thesis
    by (simp add: ic assign_body_num_def assign_body_def)
qed

lemma midpoint_returns:
  assumes "int_of (float_half (float_add x y)) = Inr c"
  shows "c = py_int ((value_of x + value_of y) / 2)"
  using assms
  by (cases x; cases y) (auto simp: overflow_def value_of_def split: if_splits)

lemma centroid_num_returns:
  "centroid_num d = Inr c \<Longrightarrow> c = centroid_of (rect_value d)"
  by (cases d)
     (auto simp: centroid_num_def centroid_of_def rect_value_def
           split: sum.splits dest!: midpoint_returns)

lemma py_int_bound:
  assumes "\<bar>q\<bar> \<le> real_of_int b"
  shows "\<bar>py_int q\<bar> \<le> b"
proof (cases "0 \<le> q")
  case True
  then have "0 \<le> \<lfloor>q\<rfloor>" by simp
  moreover have "\<lfloor>q\<rfloor> \<le> b" using assms True by (simp add: floor_le_iff)
  ultimately show ?thesis using True by (simp add: py_int_def)
next
  case False
  then have "\<lceil>q\<rceil> \<le> 0" by (simp add: ceiling_le_iff)
  moreover have "- b \<le> \<lceil>q\<rceil>" using assms False by (simp add: le_ceiling_iff abs_le_iff)
  ultimately show ?thesis using False by (simp add: py_int_def)
qed

lemma midpoint_in_range:
  assumes "in_range x" "in_range y"
  shows "int_of (float_half (float_add x y)) = Inr (py_int ((value_of x + value_of y) / 2))"
    and "\<bar>py_int ((value_of x + value_of y) / 2)\<bar> \<le> coord_bound"
proof -
  from assms obtain a b where x: "x = Finite a" and y: "y = Finite b"
    and a: "\<bar>a\<bar> \<le> real_of_int coord_bound" and b: "\<bar>b\<bar> \<le> real_of_int coord_bound"
    by (auto simp: in_range_def split: number.splits)
  have "\<bar>a + b\<bar> < float_limit"
    using a b by (simp add: coord_bound_def float_limit_def)
  then have "\<not> float_limit \<le> a + b" "\<not> a + b \<le> - float_limit"
    by (simp_all add: abs_less_iff)
  then show "int_of (float_half (float_add x y)) = Inr (py_int ((value_of x + value_of y) / 2))"
    by (simp add: x y overflow_def value_of_def)
  have "\<bar>(a + b) / 2\<bar> \<le> real_of_int coord_bound"
    using a b by simp
  then show "\<bar>py_int ((value_of x + value_of y) / 2)\<bar> \<le> coord_bound"
    by (simp add: x y value_of_def py_int_bound)
qed

lemma centroid_num_well_formed:
  assumes "well_formed_rect d"
  shows "centroid_num d = Inr (centroid_of (rect_value d))"
    and "bounded_centroid (centroid_of (rect_value d))"
proof -
  obtain x1 y1 x2 y2 where d: "d = (x1, y1, x2, y2)" by (cases d)
  from assms have r: "in_range x1" "in_range x2" "in_range y1" "in_range y2"
    by (simp_all add: d well_formed_rect_def)
  note mx = midpoint_in_range [OF r(1,2)] and my = midpoint_in_range [OF r(3,4)]
  show "centroid_num d = Inr (centroid_of (rect_value d))"
    by (simp add: d centroid_num_def centroid_of_def rect_value_def mx(1) my(1))
  show "bounded_centroid (centroid_of (rect_value d))"
    using mx(2) my(2) by (simp add: d bounded_centroid_def centroid_of_def rect_value_def)
qed


lemma centroids_returns:
  "comprehension centroid_num ds = Inr cs \<Longrightarrow> cs = map centroid_of (map rect_value ds)"
proof (induction ds arbitrary: cs)
  case Nil
  then show ?case by simp
next
  case (Cons d ds)
  from Cons.prems obtain c cs' where c: "centroid_num d = Inr c"
    and r: "comprehension centroid_num ds = Inr cs'" and cs: "cs = c # cs'"
    by (auto split: sum.splits)
  from centroid_num_returns [OF c] Cons.IH [OF r] show ?case by (simp add: cs)
qed

lemma centroids_well_formed:
  "list_all well_formed_rect ds \<Longrightarrow>
   comprehension centroid_num ds = Inr (map centroid_of (map rect_value ds))"
  by (induction ds) (simp_all add: centroid_num_well_formed(1))

lemma centroids_bounded:
  "list_all well_formed_rect ds \<Longrightarrow>
   list_all bounded_centroid (map centroid_of (map rect_value ds))"
  by (induction ds) (simp_all add: centroid_num_well_formed(2))

lemma square_bound:
  fixes x :: int
  assumes "\<bar>x\<bar> \<le> 2 ^ 31"
  shows "x\<^sup>2 \<le> 2 ^ 62"
proof -
  from assms have "\<bar>x\<bar> \<le> \<bar>2 ^ 31 :: int\<bar>" by simp
  then have "x\<^sup>2 \<le> (2 ^ 31 :: int)\<^sup>2"
    by (simp only: abs_le_square_iff)
  then show ?thesis by simp
qed

lemma dist_sq_bounded:
  assumes "bounded_centroid a" "bounded_centroid b"
  shows "dist_sq a b < 2 ^ 64"
proof -
  from assms have "\<bar>fst a - fst b\<bar> \<le> 2 ^ 31" "\<bar>snd a - snd b\<bar> \<le> 2 ^ 31"
    by (auto simp: bounded_centroid_def coord_bound_def abs_le_iff)
  then have "(fst a - fst b)\<^sup>2 \<le> 2 ^ 62" "(snd a - snd b)\<^sup>2 \<le> 2 ^ 62"
    by (simp_all only: square_bound)
  then show ?thesis by (simp add: dist_sq_def)
qed

lemma comprehension_Cons_returns:
  assumes "comprehension f (x # xs) = Inr ys"
  obtains y ys' where "f x = Inr y" "comprehension f xs = Inr ys'" "ys = y # ys'"
  using assms by (auto split: sum.splits)

lemma track_centroids_members:
  "comprehension (\<lambda>tid. map_sum id centroid (getitem trs tid)) tids = Inr tcs \<Longrightarrow>
   \<forall>tc \<in> set tcs. \<exists>kt \<in> set trs. tc = centroid (snd kt)"
proof (induction tids arbitrary: tcs)
  case Nil
  then show ?case by simp
next
  case (Cons tid tids)
  from Cons.prems obtain tc tcs' where
    h: "map_sum id centroid (getitem trs tid) = Inr tc"
    and r: "comprehension (\<lambda>tid. map_sum id centroid (getitem trs tid)) tids = Inr tcs'"
    and tcs0: "tcs = tc # tcs'"
    by (rule comprehension_Cons_returns)
  from h obtain tr where g: "getitem trs tid = Inr tr" and tc: "tc = centroid tr"
    by (cases "getitem trs tid") auto
  note tcs = tcs0 [unfolded tc]
  from g have "(tid, tr) \<in> set trs"
    by (auto simp: getitem_def split: option.splits dest: map_of_SomeD)
  with Cons.IH [OF r] show ?case by (force simp: tcs)
qed

lemma assign_loop_num_eq:
  assumes "list_all bounded_centroid cs" "\<forall>tc \<in> set tcs. bounded_centroid tc"
  shows "for_loop (assign_body_num tids tcs) (enumerate n cs) loc =
         for_loop (assign_body tids tcs) (enumerate n cs) loc"
proof (rule for_loop_cong)
  fix ic s assume "ic \<in> set (enumerate n cs)"
  then have "fst ic - n < length cs" "cs ! (fst ic - n) = snd ic"
    by (auto simp: in_set_enumerate_eq)
  then have "snd ic \<in> set cs"
    using nth_mem [of "fst ic - n" cs] by simp
  with assms(1) have "bounded_centroid (snd ic)"
    by (simp add: list_all_iff)
  with assms(2) have "\<forall>tc \<in> set tcs. dist_sq (snd ic) tc < 2 ^ 64"
    by (blast intro: dist_sq_bounded)
  then show "assign_body_num tids tcs ic s = assign_body tids tcs ic s"
    by (rule assign_body_num_eq)
qed

lemma update_num_eq:
  assumes wf: "list_all well_formed_rect detections" and b: "bounded_tracker self"
  shows "update_num self detections = update self (map rect_value detections)"
proof (cases "comprehension (\<lambda>tid. map_sum id centroid (getitem (tracks self) tid))
                (keys (tracks self))")
  case (Inl e)
  then show ?thesis
    by (simp add: update_num_def update_def centroids_well_formed [OF wf])
next
  case (Inr tcs)
  have "\<forall>tc \<in> set tcs. bounded_centroid tc"
  proof
    fix tc assume "tc \<in> set tcs"
    with track_centroids_members [OF Inr] obtain kt where
      "kt \<in> set (tracks self)" "tc = centroid (snd kt)"
      by blast
    with b show "bounded_centroid tc"
      by (simp add: bounded_tracker_def list_all_iff)
  qed
  from assign_loop_num_eq [OF centroids_bounded [OF wf] this]
  show ?thesis
    by (simp add: update_num_def update_def centroids_well_formed [OF wf] Inr Let_def)
qed

lemma update_num_returns:
  assumes "update_num self detections = Inr r"
  shows "update self (map rect_value detections) = Inr r"
proof (cases "detections = []")
  case True
  with assms show ?thesis by (simp add: update_num_def update_def)
next
  case ne: False
  from assms ne obtain cs where cs: "comprehension centroid_num detections = Inr cs"
    by (auto simp: update_num_def split: sum.splits)
  have cs': "map (centroid_of \<circ> rect_value) detections = cs"
    using centroids_returns [OF cs] by simp
  show ?thesis
  proof (cases "tracks self = []")
    case True
    with assms ne show ?thesis by (simp add: update_num_def update_def cs cs' Let_def)
  next
    case False
    from assms ne False obtain tcs loc where
      tcs: "comprehension (\<lambda>tid. map_sum id centroid (getitem (tracks self) tid))
              (keys (tracks self)) = Inr tcs"
      and loop: "for_loop (assign_body_num (keys (tracks self)) tcs) (enumerate 0 cs) init_locals =
                   Inr loc"
      by (auto simp: update_num_def cs Let_def split: sum.splits)
    have "for_loop (assign_body (keys (tracks self)) tcs) (enumerate 0 cs) init_locals = Inr loc"
      by (rule for_loop_refine [OF assign_body_num_returns loop])
    with assms ne False show ?thesis
      by (simp add: update_num_def update_def cs cs' tcs loop Let_def)
  qed
qed


lemma set_setitem: "set (setitem d k v) \<subseteq> insert (k, v) (set d)"
  by (induction d) (auto simp: setitem_def)

lemma fold_register_members:
  "kt \<in> set (tracks (fold register cs self)) \<Longrightarrow>
   kt \<in> set (tracks self) \<or> (\<exists>c \<in> set cs. snd kt = new_track c)"
proof (induction cs arbitrary: self)
  case Nil
  then show ?case by simp
next
  case (Cons c cs)
  from Cons.IH [of "register c self"] Cons.prems
  have "kt \<in> set (tracks (register c self)) \<or> (\<exists>c \<in> set cs. snd kt = new_track c)"
    by simp
  moreover have "set (tracks (register c self)) \<subseteq>
                   insert (next_id self, new_track c) (set (tracks self))"
    using set_setitem [of "tracks self" "next_id self" "new_track c"]
    by (simp add: register_def new_track_def)
  ultimately show ?case by auto
qed

lemma refreshed_centroid:
  assumes "\<forall>iv \<in> set asg. fst iv < length cs"
  shows "centroid (snd (refreshed asg cs kt)) = centroid (snd kt) \<or>
         centroid (snd (refreshed asg cs kt)) \<in> set cs"
proof (cases "filter (\<lambda>iv. snd iv = fst kt) asg")
  case Nil
  then show ?thesis by (simp add: refreshed_def aged_def)
next
  case (Cons iv ivs)
  then have "iv \<in> set (filter (\<lambda>iv. snd iv = fst kt) asg)" by simp
  with assms have "fst iv < length cs" by simp
  then show ?thesis by (simp add: refreshed_def Cons new_track_def)
qed

lemma set_unmatched: "set (unmatched asg cs) \<subseteq> set cs"
proof -
  have "set (filter (\<lambda>ic. fst ic \<notin> set (keys asg)) (enumerate 0 cs)) \<subseteq>
          set (enumerate 0 cs)"
    by (rule filter_is_subset)
  then have "snd ` set (filter (\<lambda>ic. fst ic \<notin> set (keys asg)) (enumerate 0 cs)) \<subseteq>
               snd ` set (enumerate 0 cs)"
    by (rule image_mono)
  also have "snd ` set (enumerate 0 cs) = set (map snd (enumerate 0 cs))"
    by (simp only: set_map)
  also have "\<dots> = set cs"
    by (simp only: map_snd_enumerate)
  finally show ?thesis by (simp only: unmatched_def set_map)
qed

lemma update_keeps_bounded:
  assumes d: "distinct (keys (tracks self))" and b: "bounded_tracker self"
    and cs: "list_all bounded_centroid (map centroid_of detections)"
    and u: "update self detections = Inr (ids, self')"
  shows "distinct (keys (tracks self'))" and "bounded_tracker self'"
proof -
  let ?cs = "map centroid_of detections" and ?asg = "matching self detections"
  let ?self1 = "self\<lparr>tracks := map (refreshed ?asg ?cs) (tracks self)\<rparr>"
  let ?self2 = "fold register (unmatched ?asg ?cs) ?self1"
  have T: "tracks self' = (if detections = [] then filter alive (map (apsnd aged) (tracks self))
                           else filter alive (tracks ?self2))"
    using u update_no_detections [OF d] update_detections [OF d, of detections]
    by (auto split: if_splits)
  have d1: "distinct (keys (map (apsnd aged) (tracks self)))"
    using d by (simp add: keys_def comp_def)
  have d2: "distinct (keys (tracks ?self2))"
    by (rule distinct_fold_register) (simp add: d)
  show "distinct (keys (tracks self'))"
    using d1 d2 by (simp add: T keys_def distinct_map_filter)
  have rng: "\<forall>iv \<in> set ?asg. fst iv < length ?cs"
    using matching_rows by auto
  have old: "bounded_centroid (centroid (snd kt))" if "kt \<in> set (tracks self)" for kt
    using b that by (simp add: bounded_tracker_def list_all_iff)
  have new: "bounded_centroid c" if "c \<in> set ?cs" for c
    using cs that by (auto simp: list_all_iff)
  have "bounded_centroid (centroid (snd kt))" if kt: "kt \<in> set (tracks self')" for kt
  proof (cases "detections = []")
    case True
    with kt obtain kt0 where "kt0 \<in> set (tracks self)" "kt = apsnd aged kt0"
      by (auto simp: T)
    with old [of kt0] show ?thesis by (cases kt0) (simp add: aged_def)
  next
    case False
    with kt have "kt \<in> set (tracks ?self2)" by (simp add: T)
    from fold_register_members [OF this]
    show ?thesis
    proof
      assume "kt \<in> set (tracks ?self1)"
      then obtain kt0 where kt0: "kt0 \<in> set (tracks self)" "kt = refreshed ?asg ?cs kt0"
        by auto
      from refreshed_centroid [OF rng, of kt0]
      show ?thesis
      proof
        assume "centroid (snd (refreshed ?asg ?cs kt0)) = centroid (snd kt0)"
        with old [OF kt0(1)] show ?thesis by (simp only: kt0(2))
      next
        assume "centroid (snd (refreshed ?asg ?cs kt0)) \<in> set ?cs"
        from new [OF this] show ?thesis by (simp only: kt0(2))
      qed
    next
      assume "\<exists>c \<in> set (unmatched ?asg ?cs). snd kt = new_track c"
      then obtain c where "c \<in> set (unmatched ?asg ?cs)" "snd kt = new_track c"
        by blast
      with set_unmatched [of ?asg ?cs] have "c \<in> set ?cs" "snd kt = new_track c"
        by blast+
      with new [of c] show ?thesis by (simp add: new_track_def)
    qed
  qed
  then show "bounded_tracker self'"
    by (simp add: bounded_tracker_def list_all_iff)
qed

lemma run_num_simps [simp]:
  "run_num self [] = Inr self"
  "run_num self (f # fs) =
     (case frame_step_num f self of Inl e \<Rightarrow> Inl e | Inr self' \<Rightarrow> run_num self' fs)"
  by (simp_all add: run_num_def split: sum.splits)

lemma run_num_total:
  assumes "distinct (keys (tracks self))" "bounded_tracker self"
    and "list_all (list_all well_formed_rect) frames"
  shows "\<exists>self'. run_num self frames = Inr self' \<and> distinct (keys (tracks self')) \<and>
                 bounded_tracker self'"
  using assms
proof (induction frames arbitrary: self)
  case Nil
  then show ?case by simp
next
  case (Cons f frames)
  from Cons.prems(3) have f: "list_all well_formed_rect f"
    and fs: "list_all (list_all well_formed_rect) frames"
    by simp_all
  from update_num_eq [OF f Cons.prems(2)] update_total_aux [OF Cons.prems(1), of "map rect_value f"]
  obtain ids s1 where u: "update_num self f = Inr (ids, s1)"
    and u': "update self (map rect_value f) = Inr (ids, s1)"
    by auto
  from update_keeps_bounded [OF Cons.prems(1,2) centroids_bounded [OF f] u']
  have "distinct (keys (tracks s1))" "bounded_tracker s1" .
  from Cons.IH [OF this fs] show ?case
    by (simp add: frame_step_num_def u)
qed

lemma run_num_init_total:
  "list_all (list_all well_formed_rect) frames \<Longrightarrow>
   \<exists>self. run_num init frames = Inr self \<and> distinct (keys (tracks self)) \<and> bounded_tracker self"
  by (rule run_num_total) (simp_all add: init_def bounded_tracker_def)

lemmas update_num_eval = update_num_def centroid_num_def overflow_def float_limit_def py_int_def
  comp_def getitem_def setitem_def delitem_def index_def assign_body_num_def scan_body_num_def
  np_sqrt_def refresh_body_def add_body_def remove_body_def init_locals_def dist_sq_def
  less_min_def max_disappeared_def register_def

lemma update_num_sqrt_fault:
  "update_num \<lparr>tracks = [(1, \<lparr>centroid = (0, 0), disappeared = 0\<rparr>)], next_id = 2\<rparr>
     [(Finite 0, Finite 0, Finite 8589934592, Finite 0)] = Inl TypeError"
  by (simp add: update_num_eval)

lemma update_num_nan_fault:
  "update_num init [(NaN, Finite 0, Finite 10, Finite 10)] = Inl ValueError"
  by (simp add: update_num_eval)

lemma update_num_inf_fault:
  "update_num init [(Finite 0, Finite 0, PosInf, Finite 10)] = Inl OverflowError"
  by (simp add: update_num_eval)

section \<open>The claims\<close>

text \<open>
  C1.  For a frame without detections the claim has \<open>update\<close> age every track, delete
  the tracks above the threshold, create none, and return the ids that remain.  The
  state changes as claimed (\<open>update_no_detections\<close>), but line 39 returns the empty
  list whatever remains: with track 1 just seen, the call keeps track 1 and returns no id.
\<close>

theorem update_no_detections_returns_nothing:
  "update \<lparr>tracks = [(1, \<lparr>centroid = (0, 0), disappeared = 0\<rparr>)], next_id = 2\<rparr> [] =
     Inr ([], \<lparr>tracks = [(1, \<lparr>centroid = (0, 0), disappeared = 1\<rparr>)], next_id = 2\<rparr>)"
  by (simp add: update_no_detections aged_def alive_def max_disappeared_def)

text \<open>
  C3.  On the tracker that \<open>__init__\<close> builds, a call with N detections, N at least 1,
  creates the tracks 1, ..., N, one per detection in input order, each at its
  detection's centroid, and returns exactly these ids.
\<close>

theorem update_fresh_tracker:
  "1 \<le> length detections \<Longrightarrow>
   update init detections =
     Inr ([1 .. int (length detections)],
          \<lparr>tracks = zip [1 .. int (length detections)]
                      (map (\<lambda>d. \<lparr>centroid = centroid_of d, disappeared = 0\<rparr>) detections),
           next_id = int (length detections) + 1\<rparr>)"
  by (simp add: update_def init_def fold_register new_track_def comp_def keys_def)

theorem update_fresh_tracker_witness:
  "1 \<le> length [(0, 0, 10, 10), (100, 100, 300, 300), (7, 7, 8, 8) :: detection] \<and>
   update init [(0, 0, 10, 10), (100, 100, 300, 300), (7, 7, 8, 8)] =
     Inr ([1, 2, 3],
          \<lparr>tracks = [(1, \<lparr>centroid = (5, 5), disappeared = 0\<rparr>),
                     (2, \<lparr>centroid = (200, 200), disappeared = 0\<rparr>),
                     (3, \<lparr>centroid = (7, 7), disappeared = 0\<rparr>)],
           next_id = 4\<rparr>)"
  using update_fresh_tracker [of "[(0, 0, 10, 10), (100, 100, 300, 300), (7, 7, 8, 8)]"]
  by (simp add: centroid_of_def py_int_def upto_rec1)



text \<open>
  C7.  Whatever the tracker (a dict, so without duplicate keys) and the detections, every
  id that \<open>update\<close> returns is the key of a track of the resulting tracker whose
  \<open>disappeared\<close> counter does not exceed 10.
\<close>

theorem returned_ids_alive:
  assumes "distinct (keys (tracks self))" and "update self detections = Inr (ids, self')"
  shows "\<forall>k \<in> set ids. \<exists>tr. getitem (tracks self') k = Inr tr \<and> \<not> disappeared tr > 10"
proof (cases "detections = []")
  case True
  then show ?thesis using assms by (simp add: update_no_detections)
next
  case False
  let ?T = "filter alive (tracks (fold register (unmatched (matching self detections) (map centroid_of detections))
                      (self\<lparr>tracks := map (refreshed (matching self detections) (map centroid_of detections)) (tracks self)\<rparr>)))"
  from update_detections [OF assms(1) False] assms(2)
  have ids: "ids = keys ?T" and self': "tracks self' = ?T"
    by auto
  show ?thesis
  proof
    fix k assume "k \<in> set ids"
    then obtain tr where in_T: "(k, tr) \<in> set ?T"
      by (auto simp: ids keys_def)
    then obtain pre suf where split: "?T = pre @ (k, tr) # suf"
      by (auto simp: in_set_conv_decomp)
    have "distinct (keys (tracks (self\<lparr>tracks := map (refreshed (matching self detections)
             (map centroid_of detections)) (tracks self)\<rparr>)))"
      using assms(1) by simp
    then have "distinct (keys ?T)"
      unfolding keys_def by (intro distinct_map_filter distinct_fold_register [unfolded keys_def])
    then have "k \<notin> set (keys pre)"
      by (simp add: split)
    then have "getitem (pre @ (k, tr) # suf) k = Inr tr"
      by (rule getitem_split)
    then have "getitem ?T k = Inr tr"
      by (simp only: split)
    moreover have "\<not> disappeared tr > 10"
      using in_T by (simp add: alive_def max_disappeared_def)
    ultimately show "\<exists>tr. getitem (tracks self') k = Inr tr \<and> \<not> disappeared tr > 10"
      by (auto simp: self')
  qed
qed

theorem returned_ids_alive_witness:
  "distinct (keys (tracks \<lparr>tracks = [(1, \<lparr>centroid = (0, 0), disappeared = 0\<rparr>),
                                      (2, \<lparr>centroid = (500, 500), disappeared = 10\<rparr>)],
                            next_id = 3\<rparr>)) \<and>
   update \<lparr>tracks = [(1, \<lparr>centroid = (0, 0), disappeared = 0\<rparr>),
                     (2, \<lparr>centroid = (500, 500), disappeared = 10\<rparr>)], next_id = 3\<rparr>
          [(0, 0, 10, 10)] =
     Inr ([1], \<lparr>tracks = [(1, \<lparr>centroid = (5, 5), disappeared = 0\<rparr>)], next_id = 3\<rparr>) \<and>
   (\<exists>tr. getitem [(1 :: int, \<lparr>centroid = (5, 5), disappeared = 0\<rparr>)] 1 = Inr tr \<and>
         \<not> disappeared tr > 10)"
proof -
  let ?self = "\<lparr>tracks = [(1, \<lparr>centroid = (0, 0), disappeared = 0\<rparr>),
                         (2, \<lparr>centroid = (500, 500), disappeared = 10\<rparr>)], next_id = 3\<rparr>"
  have d: "distinct (keys (tracks ?self))" by simp
  have u: "update ?self [(0, 0, 10, 10)] =
             Inr ([1], \<lparr>tracks = [(1, \<lparr>centroid = (5, 5), disappeared = 0\<rparr>)], next_id = 3\<rparr>)"
    by (simp add: update_def centroid_of_def py_int_def comp_def getitem_def setitem_def
          delitem_def index_def assign_body_def scan_body_def refresh_body_def add_body_def
          remove_body_def init_locals_def dist_sq_def less_min_def max_disappeared_def
          register_def)
  from returned_ids_alive [OF d u]
  have r: "\<exists>tr. getitem [(1 :: int, \<lparr>centroid = (5, 5), disappeared = 0\<rparr>)] 1 = Inr tr \<and>
                \<not> disappeared tr > 10"
    by simp
  from d u r show ?thesis by blast
qed


text \<open>
  C8.  \<open>update\<close> is total on its documented inputs.  With the faults of \<open>int()\<close> and
  \<open>np.sqrt\<close> as branches of the model (\<open>update_num\<close>), a call returns ids and a tracker
  whenever the dict has no duplicate key (as any Python dict), the centroids of the
  tracker are within the coordinate bound and every rectangle is well formed: four finite
  coordinates within the bound; the empty list is included.  The result is the one the
  exact \<open>update\<close> gives, and the resulting tracker again has no duplicate key and bounded
  centroids, so these hypotheses hold for every tracker reached from \<open>__init__\<close> through
  well-formed frames (\<open>run_num_init_total\<close>).  On other inputs the call can raise
  (\<open>update_num_sqrt_fault\<close>, \<open>update_num_nan_fault\<close>, \<open>update_num_inf_fault\<close>).  The model has
  no input or output.
\<close>

theorem update_num_never_raises:
  assumes "distinct (keys (tracks self))" and "bounded_tracker self"
    and "list_all well_formed_rect detections"
  shows "\<exists>ids self'. update_num self detections = Inr (ids, self') \<and>
           update self (map rect_value detections) = Inr (ids, self') \<and>
           distinct (keys (tracks self')) \<and> bounded_tracker self'"
proof -
  from update_total_aux [OF assms(1), of "map rect_value detections"] obtain ids self'
    where u: "update self (map rect_value detections) = Inr (ids, self')"
    by blast
  have "list_all bounded_centroid (map centroid_of (map rect_value detections))"
    by (rule centroids_bounded [OF assms(3)])
  from update_keeps_bounded [OF assms(1,2) this u] u update_num_eq [OF assms(3,2)]
  show ?thesis by simp
qed

theorem update_num_never_raises_witness:
  "distinct (keys (tracks \<lparr>tracks = [(1, \<lparr>centroid = (0, 0), disappeared = 0\<rparr>),
                                      (2, \<lparr>centroid = (500, 500), disappeared = 10\<rparr>)],
                            next_id = 3\<rparr>)) \<and>
   bounded_tracker \<lparr>tracks = [(1, \<lparr>centroid = (0, 0), disappeared = 0\<rparr>),
                              (2, \<lparr>centroid = (500, 500), disappeared = 10\<rparr>)], next_id = 3\<rparr> \<and>
   list_all well_formed_rect [(Finite 0, Finite 0, Finite 10, Finite 10),
                              (Finite 3, Finite 3, Finite 9, Finite 9)] \<and>
   update_num \<lparr>tracks = [(1, \<lparr>centroid = (0, 0), disappeared = 0\<rparr>),
                         (2, \<lparr>centroid = (500, 500), disappeared = 10\<rparr>)], next_id = 3\<rparr>
     [(Finite 0, Finite 0, Finite 10, Finite 10), (Finite 3, Finite 3, Finite 9, Finite 9)] =
     Inr ([1, 3], \<lparr>tracks = [(1, \<lparr>centroid = (5, 5), disappeared = 0\<rparr>),
                              (3, \<lparr>centroid = (6, 6), disappeared = 0\<rparr>)], next_id = 4\<rparr>)"
proof -
  let ?self = "\<lparr>tracks = [(1, \<lparr>centroid = (0, 0), disappeared = 0\<rparr>),
                         (2, \<lparr>centroid = (500, 500), disappeared = 10\<rparr>)], next_id = 3\<rparr>"
  let ?ds = "[(Finite 0, Finite 0, Finite 10, Finite 10),
              (Finite 3, Finite 3, Finite 9, Finite 9)]"
  have d: "distinct (keys (tracks ?self))" by simp
  have b: "bounded_tracker ?self"
    by (simp add: bounded_tracker_def bounded_centroid_def coord_bound_def)
  have w: "list_all well_formed_rect ?ds"
    by (simp add: well_formed_rect_def in_range_def coord_bound_def)
  have u: "update ?self (map rect_value ?ds) =
     Inr ([1, 3], \<lparr>tracks = [(1, \<lparr>centroid = (5, 5), disappeared = 0\<rparr>),
                              (3, \<lparr>centroid = (6, 6), disappeared = 0\<rparr>)], next_id = 4\<rparr>)"
    by (simp add: rect_value_def value_of_def update_eval)
  from update_num_never_raises [OF d b w] obtain ids self' where
    un: "update_num ?self ?ds = Inr (ids, self')"
    and uu: "update ?self (map rect_value ?ds) = Inr (ids, self')"
    by blast
  from uu u have "Inr (ids, self') =
     (Inr ([1, 3], \<lparr>tracks = [(1, \<lparr>centroid = (5, 5), disappeared = 0\<rparr>),
                              (3, \<lparr>centroid = (6, 6), disappeared = 0\<rparr>)], next_id = 4\<rparr>)
        :: error + int list \<times> tracker)"
    by (simp only:)
  with un have "update_num ?self ?ds =
     Inr ([1, 3], \<lparr>tracks = [(1, \<lparr>centroid = (5, 5), disappeared = 0\<rparr>),
                              (3, \<lparr>centroid = (6, 6), disappeared = 0\<rparr>)], next_id = 4\<rparr>)"
    by (simp only:)
  with d b w show ?thesis by blast
qed

text \<open>
  C2.  With tracks and detections both present, the assignment pass of \<open>update\<close>
  (lines 61-85) computes exactly \<open>greedy_match\<close>: the detections are taken in input
  order, each is assigned to the first not-yet-claimed track at least Euclidean
  distance if and only if that distance is strictly below 100, and a claimed track is
  out of reach of the later detections.  No detection index and no track id occurs twice
  among the assignments, every assigned id is an existing track, and the result of the
  call is built from these assignments.
\<close>

theorem update_greedy_matching:
  assumes "distinct (keys (tracks self))" "detections \<noteq> []" "tracks self \<noteq> []"
  shows "(\<exists>loc. for_loop (assign_body (keys (tracks self))
                          (map (\<lambda>kt. centroid (snd kt)) (tracks self)))
                  (enumerate 0 (map centroid_of detections)) init_locals = Inr loc \<and>
               assignments loc = matching self detections \<and>
               used_rows loc = set (keys (matching self detections))) \<and>
         distinct (keys (matching self detections)) \<and>
         distinct (map snd (matching self detections)) \<and>
         set (map snd (matching self detections)) \<subseteq> set (keys (tracks self)) \<and>
         update self detections =
           (let cs = map centroid_of detections;
                asg = matching self detections;
                self2 = fold register (unmatched asg cs)
                          (self\<lparr>tracks := map (refreshed asg cs) (tracks self)\<rparr>);
                trs3 = filter alive (tracks self2)
            in Inr (keys trs3, self2\<lparr>tracks := trs3\<rparr>))"
  using assignment_pass [OF assms(1)] matching_distinct [of self detections]
    update_detections [OF assms(1,2)]
  by (simp add: Let_def)

theorem update_greedy_matching_witness:
  "distinct (keys (tracks \<lparr>tracks = [(1, \<lparr>centroid = (0, 0), disappeared = 0\<rparr>),
                                      (2, \<lparr>centroid = (500, 500), disappeared = 3\<rparr>)],
                            next_id = 3\<rparr>)) \<and>
   matching \<lparr>tracks = [(1, \<lparr>centroid = (0, 0), disappeared = 0\<rparr>),
                       (2, \<lparr>centroid = (500, 500), disappeared = 3\<rparr>)], next_id = 3\<rparr>
            [(0, 0, 10, 10), (0, 0, 12, 12), (510, 510, 530, 530)] = [(0, 1), (2, 2)] \<and>
   update \<lparr>tracks = [(1, \<lparr>centroid = (0, 0), disappeared = 0\<rparr>),
                     (2, \<lparr>centroid = (500, 500), disappeared = 3\<rparr>)], next_id = 3\<rparr>
          [(0, 0, 10, 10), (0, 0, 12, 12), (510, 510, 530, 530)] =
     Inr ([1, 2, 3],
          \<lparr>tracks = [(1, \<lparr>centroid = (5, 5), disappeared = 0\<rparr>),
                     (2, \<lparr>centroid = (520, 520), disappeared = 0\<rparr>),
                     (3, \<lparr>centroid = (6, 6), disappeared = 0\<rparr>)],
           next_id = 4\<rparr>)"
proof -
  let ?self = "\<lparr>tracks = [(1, \<lparr>centroid = (0, 0), disappeared = 0\<rparr>),
                         (2, \<lparr>centroid = (500, 500), disappeared = 3\<rparr>)], next_id = 3\<rparr>"
  let ?ds = "[(0, 0, 10, 10), (0, 0, 12, 12), (510, 510, 530, 530)] :: detection list"
  have d: "distinct (keys (tracks ?self))" by simp
  have m: "matching ?self ?ds = [(0, 1), (2, 2)]"
    by (simp add: euclid_eval)
  from update_greedy_matching [of ?self ?ds] d show ?thesis
    by (simp add: m) (simp add: euclid_eval)
qed



text \<open>
  C6.  In every call, on a tracker that satisfies the invariant, each existing track is
  changed in exactly one of two ways.  A track that the assignment pass matched to
  detection i is afterwards in the dict with that detection's centroid and
  \<open>disappeared\<close> 0.  A track that was not matched has its counter incremented by exactly
  1 and its centroid kept; it stays in the dict unless the new counter exceeds 10, in
  which case it is removed.  With no detections, no track is matched.
\<close>

theorem track_refreshed_or_aged:
  assumes wf: "well_formed self" and mem: "(k, tr) \<in> set (tracks self)"
  shows "\<exists>ids self'. update self detections = Inr (ids, self') \<and>
     (k \<in> set (map snd (matching self detections)) \<longrightarrow>
        (\<exists>i < length detections. (i, k) \<in> set (matching self detections) \<and>
           getitem (tracks self') k =
             Inr \<lparr>centroid = centroid_of (detections ! i), disappeared = 0\<rparr>)) \<and>
     (k \<notin> set (map snd (matching self detections)) \<longrightarrow>
        (if disappeared tr + 1 > 10 then k \<notin> set (keys (tracks self'))
         else getitem (tracks self') k = Inr (tr\<lparr>disappeared := disappeared tr + 1\<rparr>)))"
proof -
  let ?asg = "matching self detections" and ?cs = "map centroid_of detections"
  let ?T = "survivors self detections @ created self detections"
  from wf have d: "distinct (keys (tracks self))" and lt: "k < next_id self"
    using mem by (auto simp: well_formed_def keys_def)
  from update_result [OF wf, of detections] obtain ids where
    u: "update self detections =
          Inr (ids, \<lparr>tracks = ?T, next_id = next_id self + int (length (unmatched ?asg ?cs))\<rparr>)"
    by blast
  have dT: "distinct (keys ?T)" by (rule distinct_result [OF wf])
  have not_created: "k \<notin> set (keys (created self detections))"
    using lt by (simp add: keys_created_range)
  have matched: "\<exists>i < length detections. (i, k) \<in> set ?asg \<and>
           getitem ?T k = Inr \<lparr>centroid = centroid_of (detections ! i), disappeared = 0\<rparr>"
    if "k \<in> set (map snd ?asg)"
  proof -
    from that obtain i where i: "(i, k) \<in> set ?asg" by force
    then have len: "i < length detections" using matching_rows by force
    have r: "refreshed ?asg ?cs (k, tr) = (k, new_track (?cs ! i))"
      by (rule refreshed_matched [OF i matching_distinct(2)])
    have "(k, new_track (?cs ! i)) \<in> set (survivors self detections)"
      using survivors_lookup(1) [OF d mem, of detections] by (simp add: r)
    then have "getitem ?T k = Inr (new_track (?cs ! i))"
      by (intro getitem_member [OF dT]) simp
    with i len show ?thesis by (auto simp: new_track_def)
  qed
  have unmatched: "if disappeared tr + 1 > 10 then k \<notin> set (keys ?T)
         else getitem ?T k = Inr (tr\<lparr>disappeared := disappeared tr + 1\<rparr>)"
    if "k \<notin> set (map snd ?asg)"
  proof -
    have r: "refreshed ?asg ?cs (k, tr) = (k, aged tr)"
      by (rule refreshed_unmatched [OF that])
    show ?thesis
    proof (cases "disappeared tr + 1 > 10")
      case True
      then have "\<not> alive (refreshed ?asg ?cs (k, tr))"
        by (simp add: r alive_def aged_def max_disappeared_def)
      from survivors_lookup(2) [OF d mem this] show ?thesis
        using True not_created by simp
    next
      case False
      then have "alive (refreshed ?asg ?cs (k, tr))"
        by (simp add: r alive_def aged_def max_disappeared_def)
      from survivors_lookup(1) [OF d mem this]
      have "getitem ?T k = Inr (aged tr)"
        by (intro getitem_member [OF dT]) (simp add: r)
      then show ?thesis using False by (simp add: aged_def)
    qed
  qed
  show ?thesis
    using u matched unmatched by auto
qed

theorem track_refreshed_or_aged_witness:
  "well_formed \<lparr>tracks = [(1, \<lparr>centroid = (0, 0), disappeared = 0\<rparr>),
                           (2, \<lparr>centroid = (500, 500), disappeared = 10\<rparr>)], next_id = 3\<rparr> \<and>
   matching \<lparr>tracks = [(1, \<lparr>centroid = (0, 0), disappeared = 0\<rparr>),
                       (2, \<lparr>centroid = (500, 500), disappeared = 10\<rparr>)], next_id = 3\<rparr>
            [(0, 0, 10, 10)] = [(0, 1)] \<and>
   (\<exists>ids self'.
      update \<lparr>tracks = [(1, \<lparr>centroid = (0, 0), disappeared = 0\<rparr>),
                        (2, \<lparr>centroid = (500, 500), disappeared = 10\<rparr>)], next_id = 3\<rparr>
             [(0, 0, 10, 10)] = Inr (ids, self') \<and>
      getitem (tracks self') 1 = Inr \<lparr>centroid = (5, 5), disappeared = 0\<rparr>) \<and>
   (\<exists>ids self'.
      update \<lparr>tracks = [(1, \<lparr>centroid = (0, 0), disappeared = 0\<rparr>),
                        (2, \<lparr>centroid = (500, 500), disappeared = 10\<rparr>)], next_id = 3\<rparr>
             [(0, 0, 10, 10)] = Inr (ids, self') \<and>
      2 \<notin> set (keys (tracks self')))"
proof -
  let ?self = "\<lparr>tracks = [(1, \<lparr>centroid = (0, 0), disappeared = 0\<rparr>),
                         (2, \<lparr>centroid = (500, 500), disappeared = 10\<rparr>)], next_id = 3\<rparr>"
  let ?ds = "[(0, 0, 10, 10)] :: detection list"
  have wf: "well_formed ?self" by (simp add: well_formed_def)
  have m: "matching ?self ?ds = [(0, 1)]" by (simp add: euclid_eval)
  have c: "centroid_of (0, 0, 10, 10) = (5, 5)" by (simp add: centroid_of_def py_int_def)
  from track_refreshed_or_aged [OF wf, of 1 "\<lparr>centroid = (0, 0), disappeared = 0\<rparr>" ?ds]
  have one: "\<exists>ids self'. update ?self ?ds = Inr (ids, self') \<and>
      getitem (tracks self') 1 = Inr \<lparr>centroid = (5, 5), disappeared = 0\<rparr>"
    by (simp add: m c)
  from track_refreshed_or_aged [OF wf, of 2 "\<lparr>centroid = (500, 500), disappeared = 10\<rparr>" ?ds]
  have two: "\<exists>ids self'. update ?self ?ds = Inr (ids, self') \<and> 2 \<notin> set (keys (tracks self'))"
    by (simp add: m)
  from wf m one two show ?thesis by blast
qed

text \<open>
  C10.  In a call with at least one detection, on a tracker that satisfies the invariant,
  every detection ends as a returned track with the detection's centroid and
  \<open>disappeared\<close> 0: either the existing track it was assigned to, or a track created in
  this call (an id from the old \<open>next_id\<close> up to the new one).  Every track created in
  the call is still in the dict and among the returned ids, and the returned list is at
  least as long as the detection list.
\<close>

theorem detections_all_tracked:
  assumes wf: "well_formed self" and ne: "detections \<noteq> []"
  shows "\<exists>ids self'. update self detections = Inr (ids, self') \<and>
      length detections \<le> length ids \<and>
      (\<forall>i < length detections. \<exists>k \<in> set ids.
          getitem (tracks self') k =
            Inr \<lparr>centroid = centroid_of (detections ! i), disappeared = 0\<rparr> \<and>
          ((i, k) \<in> set (matching self detections) \<and> k \<in> set (keys (tracks self)) \<or>
           next_id self \<le> k \<and> k < next_id self')) \<and>
      (\<forall>k. next_id self \<le> k \<and> k < next_id self' \<longrightarrow>
          k \<in> set ids \<and> (\<exists>c. getitem (tracks self') k = Inr \<lparr>centroid = c, disappeared = 0\<rparr>))"
proof -
  let ?asg = "matching self detections" and ?cs = "map centroid_of detections"
  let ?un = "unmatched ?asg ?cs"
  let ?T = "survivors self detections @ created self detections"
  let ?self' = "\<lparr>tracks = ?T, next_id = next_id self + int (length ?un)\<rparr>"
  from wf have d: "distinct (keys (tracks self))" by (simp add: well_formed_def)
  have u: "update self detections = Inr (keys ?T, ?self')"
    by (rule update_well_formed [OF wf ne])
  have dT: "distinct (keys ?T)" by (rule distinct_result [OF wf])
  have in_T: "k \<in> set (keys ?T) \<and> getitem ?T k = Inr v" if "(k, v) \<in> set ?T" for k v
    using that getitem_member [OF dT that] by (force simp: keys_def)
  have len: "length detections \<le> length (keys ?T)"
  proof -
    have "length ?un + length ?asg = length ?cs"
      by (rule length_unmatched [OF matching_distinct(1) matching_keys_range])
    moreover have "length (created self detections) = length ?un"
      by (simp add: created_nth)
    ultimately show ?thesis
      using length_survivors [OF d, of detections] by (simp add: keys_def)
  qed
  have new: "\<exists>c. (k, new_track c) \<in> set ?T"
    if "next_id self \<le> k" "k < next_id self + int (length ?un)" for k
  proof -
    from that have "k \<in> set (keys (created self detections))"
      by (simp add: keys_created_range)
    then obtain v where "(k, v) \<in> set (created self detections)"
      by (auto simp: keys_def)
    moreover from this obtain p where
      "v = new_track (unmatched (matching self detections) (map centroid_of detections) ! p)"
      by (auto simp: created_nth)
    ultimately have "(k, new_track (unmatched (matching self detections)
                        (map centroid_of detections) ! p)) \<in> set ?T"
      by simp
    then show ?thesis by (rule exI)
  qed
  have each: "\<exists>k \<in> set (keys ?T).
          getitem ?T k = Inr \<lparr>centroid = centroid_of (detections ! i), disappeared = 0\<rparr> \<and>
          ((i, k) \<in> set ?asg \<and> k \<in> set (keys (tracks self)) \<or>
           next_id self \<le> k \<and> k < next_id self + int (length ?un))"
    if i: "i < length detections" for i
  proof (cases "i \<in> set (keys ?asg)")
    case True
    then obtain k where ik: "(i, k) \<in> set ?asg" by (auto simp: keys_def)
    then have "k \<in> set (map snd ?asg)" by force
    with matching_distinct(3) [of self detections] have k: "k \<in> set (keys (tracks self))"
      by blast
    then obtain tr where mem: "(k, tr) \<in> set (tracks self)" by (auto simp: keys_def)
    have r: "refreshed ?asg ?cs (k, tr) = (k, new_track (?cs ! i))"
      by (rule refreshed_matched [OF ik matching_distinct(2)])
    have "(k, new_track (?cs ! i)) \<in> set (survivors self detections)"
      using survivors_lookup(1) [OF d mem, of detections] by (simp add: r)
    then have "(k, new_track (?cs ! i)) \<in> set ?T" by simp
    from in_T [OF this] show ?thesis
      using ik k i by (auto simp: new_track_def)
  next
    case False
    have "(i, ?cs ! i) \<in> set (enumerate 0 ?cs)"
      using i by (simp add: in_set_enumerate_eq)
    with False have "?cs ! i \<in> set ?un"
      by (force simp: unmatched_def)
    then obtain p where p: "p < length ?un" "?un ! p = ?cs ! i"
      by (auto simp: in_set_conv_nth)
    then have "(next_id self + int p, new_track (?cs ! i)) \<in> set (created self detections)"
      by (force simp: created_nth)
    then have "(next_id self + int p, new_track (?cs ! i)) \<in> set ?T" by simp
    from in_T [OF this] show ?thesis
      using p(1) i by (auto simp: new_track_def)
  qed
  have fresh: "k \<in> set (keys ?T) \<and> (\<exists>c. getitem ?T k = Inr \<lparr>centroid = c, disappeared = 0\<rparr>)"
    if "next_id self \<le> k \<and> k < next_id self + int (length ?un)" for k
  proof -
    from new that obtain c where "(k, new_track c) \<in> set ?T" by blast
    from in_T [OF this] show ?thesis by (auto simp: new_track_def)
  qed
  show ?thesis
    using u len each fresh by (intro exI [of _ "keys ?T"] exI [of _ ?self']) simp
qed

theorem detections_all_tracked_witness:
  "well_formed \<lparr>tracks = [(1, \<lparr>centroid = (0, 0), disappeared = 0\<rparr>)], next_id = 2\<rparr> \<and>
   [(0, 0, 10, 10), (1000, 1000, 1200, 1200)] \<noteq> ([] :: detection list) \<and>
   update \<lparr>tracks = [(1, \<lparr>centroid = (0, 0), disappeared = 0\<rparr>)], next_id = 2\<rparr>
          [(0, 0, 10, 10), (1000, 1000, 1200, 1200)] =
     Inr ([1, 2], \<lparr>tracks = [(1, \<lparr>centroid = (5, 5), disappeared = 0\<rparr>),
                              (2, \<lparr>centroid = (1100, 1100), disappeared = 0\<rparr>)], next_id = 3\<rparr>) \<and>
   length [(0, 0, 10, 10), (1000, 1000, 1200, 1200) :: detection] \<le> length [1, 2 :: int]"
proof -
  let ?self = "\<lparr>tracks = [(1, \<lparr>centroid = (0, 0), disappeared = 0\<rparr>)], next_id = 2\<rparr>"
  let ?ds = "[(0, 0, 10, 10), (1000, 1000, 1200, 1200)] :: detection list"
  have wf: "well_formed ?self" by (simp add: well_formed_def)
  have ne: "?ds \<noteq> []" by simp
  have u: "update ?self ?ds =
     Inr ([1, 2], \<lparr>tracks = [(1, \<lparr>centroid = (5, 5), disappeared = 0\<rparr>),
                              (2, \<lparr>centroid = (1100, 1100), disappeared = 0\<rparr>)], next_id = 3\<rparr>)"
    by (simp add: update_eval)
  from detections_all_tracked [OF wf ne]
  have "length ?ds \<le> length [1, 2 :: int]"
    by (simp add: u)
  with wf ne u show ?thesis by blast
qed

text \<open>
  C5.  Let a tracker be reached from \<open>__init__\<close> by any sequence of calls, and let any
  further calls follow.  The counter starts at 1; the ids in the dict are in strictly
  increasing order, at least 1 and below \<open>next_id\<close>; \<open>next_id\<close> never decreases; a call
  appends exactly the ids from the old \<open>next_id\<close> up to the new one, in increasing order,
  to ids it kept; and an id below \<open>next_id\<close> that is no longer in the dict (every id ever
  assigned is below \<open>next_id\<close>) is in no later dict: it is never assigned again.
\<close>

theorem ids_increasing_never_reused:
  assumes "run init frames = Inr self" and "run self later = Inr self'"
  shows "next_id init = 1 \<and>
         sorted_wrt (<) (keys (tracks self)) \<and>
         (\<forall>k \<in> set (keys (tracks self)). 1 \<le> k \<and> k < next_id self) \<and>
         next_id self \<le> next_id self' \<and>
         (\<forall>k. k < next_id self \<and> k \<notin> set (keys (tracks self)) \<longrightarrow>
              k \<notin> set (keys (tracks self'))) \<and>
         (\<forall>detections ids s1. update self detections = Inr (ids, s1) \<longrightarrow>
              (\<exists>kept. keys (tracks s1) = kept @ [next_id self .. next_id s1 - 1] \<and>
                      set kept \<subseteq> set (keys (tracks self))))"
proof -
  from run_ids_ordered [OF ids_ordered_init assms(1)] have ord: "ids_ordered self"
    by simp
  from run_ids_ordered [OF ord assms(2)]
  have later: "next_id self \<le> next_id self'"
    "\<forall>k \<in> set (keys (tracks self')). k \<in> set (keys (tracks self)) \<or> next_id self \<le> k"
    by simp_all
  have "k \<notin> set (keys (tracks self'))"
    if "k < next_id self \<and> k \<notin> set (keys (tracks self))" for k
    using later(2) that by fastforce
  moreover have "\<exists>kept. keys (tracks s1) = kept @ [next_id self .. next_id s1 - 1] \<and>
                      set kept \<subseteq> set (keys (tracks self))"
    if "update self detections = Inr (ids, s1)" for detections ids s1
    by (rule update_ids_ordered(3) [OF ord that])
  ultimately show ?thesis
    using ord later(1) by (simp add: ids_ordered_def init_def)
qed


theorem ids_increasing_never_reused_witness:
  "run init ([(0, 0, 10, 10)] # replicate 11 []) = Inr \<lparr>tracks = [], next_id = 2\<rparr> \<and>
   run \<lparr>tracks = [], next_id = 2\<rparr> [[(0, 0, 10, 10)]] =
     Inr \<lparr>tracks = [(2, \<lparr>centroid = (5, 5), disappeared = 0\<rparr>)], next_id = 3\<rparr> \<and>
   (1::int) < next_id \<lparr>tracks = [], next_id = 2\<rparr> \<and>
   1 \<notin> set (keys (tracks \<lparr>tracks = [], next_id = 2\<rparr>)) \<and>
   1 \<notin> set (keys (tracks \<lparr>tracks = [(2, \<lparr>centroid = (5, 5), disappeared = 0\<rparr>)], next_id = 3\<rparr>))"
proof -
  have first: "frame_step [(0, 0, 10, 10)] init =
                 Inr \<lparr>tracks = [(1, \<lparr>centroid = (5, 5), disappeared = 0\<rparr>)], next_id = 2\<rparr>"
    by (simp add: frame_step_def init_def update_eval)
  have r1: "run init ([(0, 0, 10, 10)] # replicate 11 []) = Inr \<lparr>tracks = [], next_id = 2\<rparr>"
    using run_single_track [of 0 1 "(5, 5)" 2 11] by (simp add: first)
  have r2: "run \<lparr>tracks = [], next_id = 2\<rparr> [[(0, 0, 10, 10)]] =
     Inr \<lparr>tracks = [(2, \<lparr>centroid = (5, 5), disappeared = 0\<rparr>)], next_id = 3\<rparr>"
    by (simp add: frame_step_def update_eval)
  from ids_increasing_never_reused [OF r1 r2]
  have "1 \<notin> set (keys (tracks \<lparr>tracks = [(2, \<lparr>centroid = (5, 5), disappeared = 0\<rparr>)], next_id = 3\<rparr>))"
    by simp
  with r1 r2 show ?thesis by simp
qed

end
